theory Spec2Isabelle
  imports Main
begin

section \<open>IlmThreadMutex.h: class Mutex and class Lock\<close>

text \<open>
  The header declares a mutual exclusion primitive (\<open>Mutex\<close>, which is \<open>std::mutex\<close>
  unless \<open>ILMBASE_FORCE_CXX03\<close> selects the platform wrapper) and the scope-bound
  guard \<open>Lock\<close>, whose member functions are defined inline.  The guard's code is
  embedded function by function; each member function is run by a calling thread and
  threads the guard object and the program state through explicitly.
\<close>

subsection \<open>Data model\<close>

type_synonym thread = nat
type_synonym mref = nat

text \<open>
  A call on the primitive need not return: it can block, leave by an exception, or have
  undefined behaviour.  These are the ways a member function of the guard can fail to
  return normally.
\<close>

datatype failure = Blocked | Thrown | Undefined

text \<open>
  The primitive is opaque to the guard, which only calls \<open>lock ()\<close> and \<open>unlock ()\<close> on
  it.  Which type \<open>Mutex\<close> names is selected by the preprocessor, so the guard is
  embedded over any pair of operations on any primitive state \<open>'m\<close>.
\<close>

record 'm Mutex_ops =
  lock :: "thread \<Rightarrow> 'm \<Rightarrow> failure + 'm"
  unlock :: "thread \<Rightarrow> 'm \<Rightarrow> failure + 'm"

text \<open>Every call the program makes on a primitive is recorded, in order.\<close>

datatype call = LockCall thread mref | UnlockCall thread mref

record 'm world =
  prims :: "mref \<Rightarrow> 'm"
  calls :: "call list"

text \<open>
  Class \<open>Lock\<close> has the two data members \<open>Mutex & _mutex\<close> and \<open>bool _locked\<close>
  (an identifier cannot start with an underscore here).
\<close>

record Lock =
  m_mutex :: mref
  m_locked :: bool

subsection \<open>Calls on the primitive\<close>

text \<open>
  \<open>_mutex.lock ()\<close> and \<open>_mutex.unlock ()\<close>, made by thread \<open>t\<close> on the primitive at
  \<open>r\<close>: the call is recorded, and the primitive changes state if the call returns.
\<close>

definition call_lock ::
  "'m Mutex_ops \<Rightarrow> thread \<Rightarrow> mref \<Rightarrow> 'm world \<Rightarrow> failure option \<times> 'm world" where
  "call_lock M t r w =
     (let w' = w\<lparr>calls := calls w @ [LockCall t r]\<rparr>
      in case lock M t (prims w r) of
           Inl f \<Rightarrow> (Some f, w')
         | Inr m' \<Rightarrow> (None, w'\<lparr>prims := (prims w)(r := m')\<rparr>))"

definition call_unlock ::
  "'m Mutex_ops \<Rightarrow> thread \<Rightarrow> mref \<Rightarrow> 'm world \<Rightarrow> failure option \<times> 'm world" where
  "call_unlock M t r w =
     (let w' = w\<lparr>calls := calls w @ [UnlockCall t r]\<rparr>
      in case unlock M t (prims w r) of
           Inl f \<Rightarrow> (Some f, w')
         | Inr m' \<Rightarrow> (None, w'\<lparr>prims := (prims w)(r := m')\<rparr>))"

subsection \<open>Class Lock\<close>

text \<open>
  \<open>Lock (const Mutex& m, bool autoLock = true)\<close>: the member initialisers bind the
  reference and clear the flag; the body locks and sets the flag when \<open>autoLock\<close>.
\<close>

definition Lock_ctor ::
  "'m Mutex_ops \<Rightarrow> thread \<Rightarrow> mref \<Rightarrow> bool \<Rightarrow> 'm world \<Rightarrow> failure option \<times> Lock \<times> 'm world" where
  "Lock_ctor M t m autoLock w =
     (let g = \<lparr>m_mutex = m, m_locked = False\<rparr>
      in if autoLock then
           (case call_lock M t (m_mutex g) w of
              (Some f, w') \<Rightarrow> (Some f, g, w')
            | (None, w') \<Rightarrow> (None, g\<lparr>m_locked := True\<rparr>, w'))
         else (None, g, w))"

text \<open>\<open>~Lock ()\<close>: unlocks if the flag is set.  The guard does not exist afterwards.\<close>

definition Lock_dtor ::
  "'m Mutex_ops \<Rightarrow> thread \<Rightarrow> Lock \<Rightarrow> 'm world \<Rightarrow> failure option \<times> 'm world" where
  "Lock_dtor M t g w =
     (if m_locked g then call_unlock M t (m_mutex g) w else (None, w))"

text \<open>\<open>void acquire ()\<close>\<close>

definition acquire ::
  "'m Mutex_ops \<Rightarrow> thread \<Rightarrow> Lock \<Rightarrow> 'm world \<Rightarrow> failure option \<times> Lock \<times> 'm world" where
  "acquire M t g w =
     (case call_lock M t (m_mutex g) w of
        (Some f, w') \<Rightarrow> (Some f, g, w')
      | (None, w') \<Rightarrow> (None, g\<lparr>m_locked := True\<rparr>, w'))"

text \<open>\<open>void release ()\<close>\<close>

definition release ::
  "'m Mutex_ops \<Rightarrow> thread \<Rightarrow> Lock \<Rightarrow> 'm world \<Rightarrow> failure option \<times> Lock \<times> 'm world" where
  "release M t g w =
     (case call_unlock M t (m_mutex g) w of
        (Some f, w') \<Rightarrow> (Some f, g, w')
      | (None, w') \<Rightarrow> (None, g\<lparr>m_locked := False\<rparr>, w'))"

text \<open>\<open>bool locked ()\<close>, a member function that is not declared \<open>const\<close>.\<close>

definition locked :: "Lock \<Rightarrow> 'm world \<Rightarrow> bool \<times> Lock \<times> 'm world" where
  "locked g w = (m_locked g, g, w)"

subsection \<open>A block that declares a guard\<close>

text \<open>
  The header's usage comment: \<^verbatim>\<open>{ Lock lock (mtx); ... }\<close>.  The guard has automatic
  storage duration, so its destructor runs when control leaves the block, whichever way
  the statements after the declaration leave it: by reaching the closing brace, by a
  jump out of the block (\<open>return\<close>), or by an exception that unwinds the stack.  If the
  constructor itself does not return, no guard exists and no destructor runs.
\<close>

datatype exit_path = FallThrough | EarlyReturn | Unwinding

definition guarded_block ::
  "'m Mutex_ops \<Rightarrow> thread \<Rightarrow> mref \<Rightarrow> bool \<Rightarrow>
   (Lock \<Rightarrow> 'm world \<Rightarrow> exit_path \<times> Lock \<times> 'm world) \<Rightarrow>
   'm world \<Rightarrow> failure option \<times> exit_path option \<times> 'm world" where
  "guarded_block M t m autoLock body w =
     (case Lock_ctor M t m autoLock w of
        (Some f, g, w1) \<Rightarrow> (Some f, None, w1)
      | (None, g, w1) \<Rightarrow>
          (case body g w1 of
             (x, g2, w2) \<Rightarrow>
               (case Lock_dtor M t g2 w2 of (d, w3) \<Rightarrow> (d, Some x, w3))))"

text \<open>
  The statements of the block that follow the guard's declaration, run in order.  A
  statement falls through to the next one, returns from the enclosing function, or
  throws; the first statement that does not fall through ends the body, and the
  statements after it are not run.
\<close>

fun run_stmts ::
  "(Lock \<Rightarrow> 'm world \<Rightarrow> exit_path \<times> Lock \<times> 'm world) list \<Rightarrow>
   Lock \<Rightarrow> 'm world \<Rightarrow> exit_path \<times> Lock \<times> 'm world" where
  "run_stmts [] g w = (FallThrough, g, w)"
| "run_stmts (s # ss) g w =
     (case s g w of
        (x, g', w') \<Rightarrow> if x = FallThrough then run_stmts ss g' w' else (x, g', w'))"

subsection \<open>The primitive\<close>

text \<open>
  Modelled from the spec: the primitive's \<open>lock ()\<close> and \<open>unlock ()\<close>, which the header
  only declares (\<open>Mutex::lock\<close>, \<open>Mutex::unlock\<close>) or takes from the standard library
  (\<open>std::mutex\<close>).  The primitive is held by at most one thread.  \<open>lock ()\<close> blocks the
  calling thread until exclusive access is obtained, so it returns only when no thread
  holds the primitive; the primitive is not reentrant, and locking it again from the
  thread that holds it is undefined.  \<open>unlock ()\<close> releases exclusive access and is
  undefined when the calling thread does not hold the primitive.
\<close>

type_synonym Mutex = "thread option"

definition Mutex_lock :: "thread \<Rightarrow> Mutex \<Rightarrow> failure + Mutex" where
  "Mutex_lock t m =
     (case m of
        None \<Rightarrow> Inr (Some t)
      | Some u \<Rightarrow> if u = t then Inl Undefined else Inl Blocked)"

definition Mutex_unlock :: "thread \<Rightarrow> Mutex \<Rightarrow> failure + Mutex" where
  "Mutex_unlock t m = (if m = Some t then Inr None else Inl Undefined)"

definition Mutex_prim :: "Mutex Mutex_ops" where
  "Mutex_prim = \<lparr>lock = Mutex_lock, unlock = Mutex_unlock\<rparr>"

subsection \<open>The guard's two states\<close>

text \<open>The flag read as a state of the guard.\<close>

datatype guard_state = Unheld | Held

definition guard_state_of :: "Lock \<Rightarrow> guard_state" where
  "guard_state_of g = (if m_locked g then Held else Unheld)"


text \<open>
  What can happen to a constructed guard: a call of \<open>acquire ()\<close>, a call of
  \<open>release ()\<close>, or the end of its scope, which runs the destructor and leaves no guard.
\<close>

datatype guard_event = AcquireCall | ReleaseCall | ScopeExit

fun guard_step ::
  "'m Mutex_ops \<Rightarrow> thread \<Rightarrow> guard_event \<Rightarrow> Lock \<Rightarrow> 'm world \<Rightarrow>
   failure option \<times> Lock option \<times> 'm world" where
  "guard_step M t AcquireCall g w = (case acquire M t g w of (f, g', w') \<Rightarrow> (f, Some g', w'))"
| "guard_step M t ReleaseCall g w = (case release M t g w of (f, g', w') \<Rightarrow> (f, Some g', w'))"
| "guard_step M t ScopeExit g w = (case Lock_dtor M t g w of (f, w') \<Rightarrow> (f, None, w'))"

text \<open>
  The state machine as the specification words it: the initial state is \<open>Held\<close> if
  auto-acquire was requested, else \<open>Unheld\<close>; \<open>acquire ()\<close> leads from \<open>Unheld\<close> to
  \<open>Held\<close>, \<open>release ()\<close> and scope exit lead from \<open>Held\<close> to \<open>Unheld\<close>, and scope exit
  in \<open>Unheld\<close> is no transition.  \<open>None\<close> is a broken caller contract.
\<close>

definition spec_initial :: "bool \<Rightarrow> guard_state" where
  "spec_initial autoLock = (if autoLock then Held else Unheld)"

fun spec_transition :: "guard_state \<Rightarrow> guard_event \<Rightarrow> guard_state option" where
  "spec_transition Unheld AcquireCall = Some Held"
| "spec_transition Held ReleaseCall = Some Unheld"
| "spec_transition Held ScopeExit = Some Unheld"
| "spec_transition Unheld ScopeExit = Some Unheld"
| "spec_transition Held AcquireCall = None"
| "spec_transition Unheld ReleaseCall = None"

subsection \<open>A program with several guards\<close>

text \<open>
  Guards have no name in the code beyond their address, which is what \<open>gid\<close> stands
  for.  A program state holds the primitives, the guards that exist, each with the thread
  that constructed it (the only thread that may use it), and for every primitive the
  guard that owns its exclusive access.  Ownership follows the calls on the primitive
  that have returned: a guard owns a primitive from the return of a lock call made by
  one of its member functions until the return of the next unlock call on that
  primitive.
\<close>

type_synonym gid = nat

record 'm program =
  p_world :: "'m world"
  p_guards :: "gid \<Rightarrow> (thread \<times> Lock) option"
  p_owner :: "mref \<Rightarrow> gid option"

definition new_calls :: "'m world \<Rightarrow> 'm world \<Rightarrow> call list" where
  "new_calls w w' = drop (length (calls w)) (calls w')"

fun note_calls :: "gid \<Rightarrow> call list \<Rightarrow> (mref \<Rightarrow> gid option) \<Rightarrow> mref \<Rightarrow> gid option" where
  "note_calls i [] own = own"
| "note_calls i (LockCall t r # cs) own = note_calls i cs (own(r := Some i))"
| "note_calls i (UnlockCall t r # cs) own = note_calls i cs (own(r := None))"

text \<open>
  An operation on guard \<open>i\<close>: its construction by a thread on a primitive, or a use of
  the constructed guard.  An operation that does not return changes nothing but the
  record of calls.  Using a guard that does not exist is undefined.
\<close>

datatype guard_op = Construct thread mref bool | Use guard_event

definition perform ::
  "'m Mutex_ops \<Rightarrow> gid \<Rightarrow> guard_op \<Rightarrow> 'm program \<Rightarrow> failure option \<times> 'm program" where
  "perform M i op p =
     (case op of
        Construct t m autoLock \<Rightarrow>
          (case Lock_ctor M t m autoLock (p_world p) of
             (Some f, g, w') \<Rightarrow> (Some f, p\<lparr>p_world := w'\<rparr>)
           | (None, g, w') \<Rightarrow>
               (None, p\<lparr>p_world := w',
                        p_guards := (p_guards p)(i := Some (t, g)),
                        p_owner := note_calls i (new_calls (p_world p) w') (p_owner p)\<rparr>))
      | Use e \<Rightarrow>
          (case p_guards p i of
             None \<Rightarrow> (Some Undefined, p)
           | Some (t, g) \<Rightarrow>
               (case guard_step M t e g (p_world p) of
                  (Some f, go, w') \<Rightarrow> (Some f, p\<lparr>p_world := w'\<rparr>)
                | (None, go, w') \<Rightarrow>
                    (None, p\<lparr>p_world := w',
                             p_guards := (p_guards p)(i := map_option (Pair t) go),
                             p_owner := note_calls i (new_calls (p_world p) w') (p_owner p)\<rparr>))))"

text \<open>
  The caller contract: a guard is constructed once, used only while it exists, and used
  as the specification's state machine allows (no \<open>acquire ()\<close> while held, no
  \<open>release ()\<close> while unheld).
\<close>

definition within_contract :: "'m program \<Rightarrow> gid \<Rightarrow> guard_op \<Rightarrow> bool" where
  "within_contract p i op =
     (case op of
        Construct t m autoLock \<Rightarrow> p_guards p i = None
      | Use e \<Rightarrow>
          (case p_guards p i of
             None \<Rightarrow> False
           | Some (t, g) \<Rightarrow> spec_transition (guard_state_of g) e \<noteq> None))"

fun run_ops :: "'m Mutex_ops \<Rightarrow> (gid \<times> guard_op) list \<Rightarrow> 'm program \<Rightarrow> 'm program" where
  "run_ops M [] p = p"
| "run_ops M ((i, op) # ops) p = run_ops M ops (snd (perform M i op p))"

fun keeps_contract :: "'m Mutex_ops \<Rightarrow> (gid \<times> guard_op) list \<Rightarrow> 'm program \<Rightarrow> bool" where
  "keeps_contract M [] p = True"
| "keeps_contract M ((i, op) # ops) p =
     (within_contract p i op \<and> keeps_contract M ops (snd (perform M i op p)))"

text \<open>No guard exists yet and every primitive is free.\<close>

definition no_guards :: "Mutex program" where
  "no_guards =
     \<lparr>p_world = \<lparr>prims = (\<lambda>_. None), calls = []\<rparr>,
      p_guards = (\<lambda>_. None),
      p_owner = (\<lambda>_. None)\<rparr>"

text \<open>
  The guard's invariant, for all guards at once: the flag of a guard is set exactly when
  the guard owns its primitive; an owner is an existing guard on that primitive whose
  thread holds it; and a primitive nobody owns is free.
\<close>

definition guards_consistent :: "Mutex program \<Rightarrow> bool" where
  "guards_consistent p \<longleftrightarrow>
     (\<forall>i t g. p_guards p i = Some (t, g) \<longrightarrow>
        (m_locked g \<longleftrightarrow> p_owner p (m_mutex g) = Some i)) \<and>
     (\<forall>r i. p_owner p r = Some i \<longrightarrow>
        (\<exists>t g. p_guards p i = Some (t, g) \<and> m_mutex g = r \<and> prims (p_world p) r = Some t)) \<and>
     (\<forall>r. p_owner p r = None \<longrightarrow> prims (p_world p) r = None)"

subsection \<open>Threads that increment a shared counter under a guard\<close>

text \<open>
  Modelled from the spec: the test program of its mutual exclusion property, which is not
  in the header.  Each thread runs, a given number of times, the block
  \<^verbatim>\<open>{ Lock guard (mtx); counter += 1; }\<close> on one shared primitive and one shared
  counter (an unbounded integer here).  Threads interleave at the granularity of the
  steps below: the loop test, the guard's constructor, the read and the write that make
  up the increment, and the guard's destructor.  The constructor and the destructor are
  the code of class \<open>Lock\<close> over the primitive of the specification; a thread whose
  lock call would block cannot take its step until the primitive is free.
\<close>

datatype pc = AtLoop | AtCtor | AtRead | AtWrite | AtDtor | Finished

record worker =
  w_pc :: pc
  w_left :: nat
  w_guard :: "Lock option"
  w_tmp :: nat

record system =
  sys_world :: "Mutex world"
  counter :: nat
  workers :: "thread \<Rightarrow> worker"

definition thread_step :: "mref \<Rightarrow> thread \<Rightarrow> system \<Rightarrow> system option" where
  "thread_step m t s =
     (let k = workers s t in
      case w_pc k of
        AtLoop \<Rightarrow>
          Some (s\<lparr>workers := (workers s)
            (t := k\<lparr>w_pc := (if 0 < w_left k then AtCtor else Finished)\<rparr>)\<rparr>)
      | AtCtor \<Rightarrow>
          (case Lock_ctor Mutex_prim t m True (sys_world s) of
             (None, g, w') \<Rightarrow>
               Some (s\<lparr>sys_world := w',
                       workers := (workers s)(t := k\<lparr>w_pc := AtRead, w_guard := Some g\<rparr>)\<rparr>)
           | (Some f, g, w') \<Rightarrow> None)
      | AtRead \<Rightarrow>
          Some (s\<lparr>workers := (workers s)(t := k\<lparr>w_pc := AtWrite, w_tmp := counter s\<rparr>)\<rparr>)
      | AtWrite \<Rightarrow>
          Some (s\<lparr>counter := w_tmp k + 1,
                  workers := (workers s)(t := k\<lparr>w_pc := AtDtor\<rparr>)\<rparr>)
      | AtDtor \<Rightarrow>
          (case w_guard k of
             None \<Rightarrow> None
           | Some g \<Rightarrow>
               (case Lock_dtor Mutex_prim t g (sys_world s) of
                  (None, w') \<Rightarrow>
                    Some (s\<lparr>sys_world := w',
                            workers := (workers s)
                              (t := k\<lparr>w_pc := AtLoop, w_left := w_left k - 1,
                                      w_guard := None\<rparr>)\<rparr>)
                | (Some f, w') \<Rightarrow> None))
      | Finished \<Rightarrow> None)"

text \<open>
  A schedule names the thread that is given the processor at each moment; a thread that
  cannot take a step then (it is blocked, or has finished) leaves the state as it is.
\<close>

definition sched_step :: "mref \<Rightarrow> system \<Rightarrow> thread \<Rightarrow> system" where
  "sched_step m s t = (case thread_step m t s of None \<Rightarrow> s | Some s' \<Rightarrow> s')"

fun run :: "mref \<Rightarrow> thread list \<Rightarrow> system \<Rightarrow> system" where
  "run m [] s = s"
| "run m (t # ts) s = run m ts (sched_step m s t)"

text \<open>
  \<open>N\<close> threads, numbered from 0, each about to run the block \<open>iters\<close> times; every
  primitive is free and the counter is 0.
\<close>

definition initial :: "nat \<Rightarrow> nat \<Rightarrow> system" where
  "initial N iters =
     \<lparr>sys_world = \<lparr>prims = (\<lambda>_. None), calls = []\<rparr>,
      counter = 0,
      workers = (\<lambda>t. if t < N
                      then \<lparr>w_pc = AtLoop, w_left = iters, w_guard = None, w_tmp = 0\<rparr>
                      else \<lparr>w_pc = Finished, w_left = 0, w_guard = None, w_tmp = 0\<rparr>)\<rparr>"

text \<open>A thread is in its critical section from the constructor's return to the destructor.\<close>

definition in_cs :: "system \<Rightarrow> thread \<Rightarrow> bool" where
  "in_cs s t =
     (w_pc (workers s t) = AtRead \<or> w_pc (workers s t) = AtWrite \<or>
      w_pc (workers s t) = AtDtor)"

text \<open>
  The increments a thread has still to write, and the invariant of the system: the
  primitive is held by exactly the thread in its critical section, that thread's guard
  is held, a value read is still the counter's, and no increment is lost.
\<close>

definition owed :: "worker \<Rightarrow> nat" where
  "owed k = (if w_pc k = AtDtor then w_left k - 1 else w_left k)"

definition sys_inv :: "mref \<Rightarrow> nat \<Rightarrow> nat \<Rightarrow> system \<Rightarrow> bool" where
  "sys_inv m N iters s \<longleftrightarrow>
     (\<forall>t. in_cs s t \<longleftrightarrow> prims (sys_world s) m = Some t) \<and>
     (\<forall>t. in_cs s t \<longrightarrow> w_guard (workers s t) = Some \<lparr>m_mutex = m, m_locked = True\<rparr>) \<and>
     (\<forall>t. w_pc (workers s t) = AtWrite \<longrightarrow> w_tmp (workers s t) = counter s) \<and>
     (\<forall>t. w_pc (workers s t) \<noteq> AtLoop \<and> w_pc (workers s t) \<noteq> Finished \<longrightarrow>
          0 < w_left (workers s t)) \<and>
     (\<forall>t. w_pc (workers s t) = Finished \<longrightarrow> w_left (workers s t) = 0) \<and>
     (\<forall>t. N \<le> t \<longrightarrow> w_pc (workers s t) = Finished) \<and>
     counter s + (\<Sum>t<N. owed (workers s t)) = N * iters"

text \<open>
  All \<open>N\<close> threads have left their loop; the steps a thread has still to take; and the
  number of slots of a schedule in which the scheduled thread did take a step.
\<close>

definition all_finished :: "nat \<Rightarrow> system \<Rightarrow> bool" where
  "all_finished N s = (\<forall>t<N. w_pc (workers s t) = Finished)"

definition todo :: "worker \<Rightarrow> nat" where
  "todo k =
     (case w_pc k of
        AtLoop \<Rightarrow> 5 * w_left k + 1
      | AtCtor \<Rightarrow> 5 * w_left k
      | AtRead \<Rightarrow> 5 * w_left k - 1
      | AtWrite \<Rightarrow> 5 * w_left k - 2
      | AtDtor \<Rightarrow> 5 * w_left k - 3
      | Finished \<Rightarrow> 0)"

fun steps_taken :: "mref \<Rightarrow> thread list \<Rightarrow> system \<Rightarrow> nat" where
  "steps_taken m [] s = 0"
| "steps_taken m (t # ts) s =
     (case thread_step m t s of None \<Rightarrow> 0 | Some s' \<Rightarrow> 1) + steps_taken m ts (sched_step m s t)"

section \<open>Properties\<close>

subsection \<open>Calls on the primitive\<close>

lemma call_lock_returns:
  "lock M t (prims w r) = Inr m' \<Longrightarrow>
   call_lock M t r w = (None, w\<lparr>calls := calls w @ [LockCall t r], prims := (prims w)(r := m')\<rparr>)"
  by (simp add: call_lock_def)

lemma call_lock_fails:
  "lock M t (prims w r) = Inl f \<Longrightarrow>
   call_lock M t r w = (Some f, w\<lparr>calls := calls w @ [LockCall t r]\<rparr>)"
  by (simp add: call_lock_def)

lemma call_unlock_returns:
  "unlock M t (prims w r) = Inr m' \<Longrightarrow>
   call_unlock M t r w = (None, w\<lparr>calls := calls w @ [UnlockCall t r], prims := (prims w)(r := m')\<rparr>)"
  by (simp add: call_unlock_def)

lemma call_unlock_fails:
  "unlock M t (prims w r) = Inl f \<Longrightarrow>
   call_unlock M t r w = (Some f, w\<lparr>calls := calls w @ [UnlockCall t r]\<rparr>)"
  by (simp add: call_unlock_def)

lemma call_lock_calls: "calls (snd (call_lock M t r w)) = calls w @ [LockCall t r]"
  by (cases "lock M t (prims w r)") (simp_all add: call_lock_fails call_lock_returns)

lemma call_unlock_calls: "calls (snd (call_unlock M t r w)) = calls w @ [UnlockCall t r]"
  by (cases "unlock M t (prims w r)") (simp_all add: call_unlock_fails call_unlock_returns)

lemma Mutex_prim_simps [simp]:
  "lock Mutex_prim = Mutex_lock" "unlock Mutex_prim = Mutex_unlock"
  by (simp_all add: Mutex_prim_def)

lemma Lock_ctor_auto_returns:
  "lock M t (prims w m) = Inr m' \<Longrightarrow>
   Lock_ctor M t m True w =
     (None, \<lparr>m_mutex = m, m_locked = True\<rparr>,
      w\<lparr>calls := calls w @ [LockCall t m], prims := (prims w)(m := m')\<rparr>)"
  by (simp add: Lock_ctor_def call_lock_returns)

lemma Lock_ctor_auto_fails:
  "lock M t (prims w m) = Inl f \<Longrightarrow>
   Lock_ctor M t m True w =
     (Some f, \<lparr>m_mutex = m, m_locked = False\<rparr>, w\<lparr>calls := calls w @ [LockCall t m]\<rparr>)"
  by (simp add: Lock_ctor_def call_lock_fails)

lemma acquire_returns:
  "lock M t (prims w (m_mutex g)) = Inr m' \<Longrightarrow>
   acquire M t g w =
     (None, g\<lparr>m_locked := True\<rparr>,
      w\<lparr>calls := calls w @ [LockCall t (m_mutex g)], prims := (prims w)(m_mutex g := m')\<rparr>)"
  by (simp add: acquire_def call_lock_returns)

lemma acquire_fails:
  "lock M t (prims w (m_mutex g)) = Inl f \<Longrightarrow>
   acquire M t g w = (Some f, g, w\<lparr>calls := calls w @ [LockCall t (m_mutex g)]\<rparr>)"
  by (simp add: acquire_def call_lock_fails)

lemma release_returns:
  "unlock M t (prims w (m_mutex g)) = Inr m' \<Longrightarrow>
   release M t g w =
     (None, g\<lparr>m_locked := False\<rparr>,
      w\<lparr>calls := calls w @ [UnlockCall t (m_mutex g)], prims := (prims w)(m_mutex g := m')\<rparr>)"
  by (simp add: release_def call_unlock_returns)

lemma release_fails:
  "unlock M t (prims w (m_mutex g)) = Inl f \<Longrightarrow>
   release M t g w = (Some f, g, w\<lparr>calls := calls w @ [UnlockCall t (m_mutex g)]\<rparr>)"
  by (simp add: release_def call_unlock_fails)

lemma Mutex_lock_held:
  "Mutex_lock u (Some t) = Inl (if u = t then Undefined else Blocked)"
  by (simp add: Mutex_lock_def)

lemma Mutex_lock_free: "Mutex_lock t None = Inr (Some t)"
  by (simp add: Mutex_lock_def)

lemma Mutex_lock_returns_iff: "Mutex_lock t m = Inr m' \<longleftrightarrow> m = None \<and> m' = Some t"
  by (auto simp: Mutex_lock_def split: option.splits)

lemma Mutex_unlock_returns_iff: "Mutex_unlock t m = Inr m' \<longleftrightarrow> m = Some t \<and> m' = None"
  by (auto simp: Mutex_unlock_def)

lemma Mutex_unlock_other: "m \<noteq> Some t \<Longrightarrow> Mutex_unlock t m = Inl Undefined"
  by (simp add: Mutex_unlock_def)

lemma release_calls: "calls (snd (snd (release M t g w))) = calls w @ [UnlockCall t (m_mutex g)]"
  by (cases "unlock M t (prims w (m_mutex g))") (simp_all add: release_fails release_returns)

lemma acquire_calls: "calls (snd (snd (acquire M t g w))) = calls w @ [LockCall t (m_mutex g)]"
  by (cases "lock M t (prims w (m_mutex g))") (simp_all add: acquire_fails acquire_returns)

lemma release_outcome:
  "fst (release M t g w) = fst (call_unlock M t (m_mutex g) w) \<and>
   snd (snd (release M t g w)) = snd (call_unlock M t (m_mutex g) w)"
  by (cases "unlock M t (prims w (m_mutex g))")
     (simp_all add: release_fails release_returns call_unlock_fails call_unlock_returns)

lemma acquire_outcome:
  "fst (acquire M t g w) = fst (call_lock M t (m_mutex g) w) \<and>
   snd (snd (acquire M t g w)) = snd (call_lock M t (m_mutex g) w)"
  by (cases "lock M t (prims w (m_mutex g))")
     (simp_all add: acquire_fails acquire_returns call_lock_fails call_lock_returns)

subsection \<open>Destruction\<close>

lemma Lock_dtor_held_returns:
  "m_locked g \<Longrightarrow> unlock M t (prims w (m_mutex g)) = Inr m' \<Longrightarrow>
   Lock_dtor M t g w =
     (None, w\<lparr>calls := calls w @ [UnlockCall t (m_mutex g)],
              prims := (prims w)(m_mutex g := m')\<rparr>)"
  by (simp add: Lock_dtor_def call_unlock_returns)

lemma Lock_dtor_held_fails:
  "m_locked g \<Longrightarrow> unlock M t (prims w (m_mutex g)) = Inl f \<Longrightarrow>
   Lock_dtor M t g w = (Some f, w\<lparr>calls := calls w @ [UnlockCall t (m_mutex g)]\<rparr>)"
  by (simp add: Lock_dtor_def call_unlock_fails)

lemma Lock_dtor_unheld: "\<not> m_locked g \<Longrightarrow> Lock_dtor M t g w = (None, w)"
  by (simp add: Lock_dtor_def)

lemma run_stmts_exit:
  "run_stmts pre g w = (FallThrough, g', w') \<Longrightarrow> s g' w' = (x, g2, w2) \<Longrightarrow> x \<noteq> FallThrough \<Longrightarrow>
   run_stmts (pre @ s # post) g w = (x, g2, w2)"
proof (induction pre arbitrary: g w)
  case Nil
  then show ?case by simp
next
  case (Cons a pre)
  obtain y h v where a: "a g w = (y, h, v)" by (cases "a g w")
  show ?case
  proof (cases "y = FallThrough")
    case True
    with Cons.prems(1) a have "run_stmts pre h v = (FallThrough, g', w')" by simp
    from Cons.IH [OF this Cons.prems(2,3)] a True show ?thesis by simp
  next
    case False
    with Cons.prems(1) a show ?thesis by simp
  qed
qed

lemma guarded_block_runs_dtor:
  "Lock_ctor M t m a w = (None, g1, w1) \<Longrightarrow> body g1 w1 = (x, g2, w2) \<Longrightarrow>
   guarded_block M t m a body w =
     (fst (Lock_dtor M t g2 w2), Some x, snd (Lock_dtor M t g2 w2))"
  by (simp add: guarded_block_def split: prod.splits)

text \<open>
  Claim C1.  If the flag is set when the destructor runs, the destructor makes exactly
  one unlock call on the bound primitive and the primitive is left in the state its
  unlock operation produces (or the destructor ends as that call ends, if the call does
  not return).  If the flag is clear the destructor does nothing at all.  A block that
  declares a guard runs the destructor however its statements leave it: whatever the
  exit path, a guard held at the exit is unlocked exactly once and the primitive
  released, and a guard not held is left alone.  In particular, when a statement in the
  middle of the block returns or throws, the statements after it are skipped and the
  unlock is still made.
\<close>

theorem Lock_dtor_unlocks_once_when_held:
  "(m_locked g \<and> unlock M t (prims w (m_mutex g)) = Inr m' \<longrightarrow>
      Lock_dtor M t g w =
        (None, w\<lparr>calls := calls w @ [UnlockCall t (m_mutex g)],
                 prims := (prims w)(m_mutex g := m')\<rparr>))
   \<and> (m_locked g \<and> unlock M t (prims w (m_mutex g)) = Inl f \<longrightarrow>
        Lock_dtor M t g w = (Some f, w\<lparr>calls := calls w @ [UnlockCall t (m_mutex g)]\<rparr>))
   \<and> (\<not> m_locked g \<longrightarrow> Lock_dtor M t g w = (None, w))
   \<and> (Lock_ctor M t m a w0 = (None, g1, w1) \<and> run_stmts body g1 w1 = (x, g2, w2) \<and>
        m_locked g2 \<and> unlock M t (prims w2 (m_mutex g2)) = Inr m2 \<longrightarrow>
        guarded_block M t m a (run_stmts body) w0 =
          (None, Some x,
           w2\<lparr>calls := calls w2 @ [UnlockCall t (m_mutex g2)],
              prims := (prims w2)(m_mutex g2 := m2)\<rparr>))
   \<and> (Lock_ctor M t m a w0 = (None, g1, w1) \<and> run_stmts body g1 w1 = (x, g2, w2) \<and>
        \<not> m_locked g2 \<longrightarrow>
        guarded_block M t m a (run_stmts body) w0 = (None, Some x, w2))
   \<and> (Lock_ctor M t m a w0 = (None, g1, w1) \<and> run_stmts pre g1 w1 = (FallThrough, g', w') \<and>
        s g' w' = (x, g2, w2) \<and> x \<noteq> FallThrough \<and>
        m_locked g2 \<and> unlock M t (prims w2 (m_mutex g2)) = Inr m2 \<longrightarrow>
        guarded_block M t m a (run_stmts (pre @ s # post)) w0 =
          (None, Some x,
           w2\<lparr>calls := calls w2 @ [UnlockCall t (m_mutex g2)],
              prims := (prims w2)(m_mutex g2 := m2)\<rparr>))"
proof (intro conjI impI)
  assume "m_locked g \<and> unlock M t (prims w (m_mutex g)) = Inr m'"
  then show "Lock_dtor M t g w =
        (None, w\<lparr>calls := calls w @ [UnlockCall t (m_mutex g)],
                 prims := (prims w)(m_mutex g := m')\<rparr>)"
    by (simp add: Lock_dtor_held_returns)
next
  assume "m_locked g \<and> unlock M t (prims w (m_mutex g)) = Inl f"
  then show "Lock_dtor M t g w = (Some f, w\<lparr>calls := calls w @ [UnlockCall t (m_mutex g)]\<rparr>)"
    by (simp add: Lock_dtor_held_fails)
next
  assume "\<not> m_locked g"
  then show "Lock_dtor M t g w = (None, w)" by (rule Lock_dtor_unheld)
next
  assume h: "Lock_ctor M t m a w0 = (None, g1, w1) \<and> run_stmts body g1 w1 = (x, g2, w2) \<and>
        m_locked g2 \<and> unlock M t (prims w2 (m_mutex g2)) = Inr m2"
  then have "guarded_block M t m a (run_stmts body) w0 =
     (fst (Lock_dtor M t g2 w2), Some x, snd (Lock_dtor M t g2 w2))"
    by (simp add: guarded_block_runs_dtor)
  with h show "guarded_block M t m a (run_stmts body) w0 =
          (None, Some x,
           w2\<lparr>calls := calls w2 @ [UnlockCall t (m_mutex g2)],
              prims := (prims w2)(m_mutex g2 := m2)\<rparr>)"
    by (simp add: Lock_dtor_held_returns)
next
  assume h: "Lock_ctor M t m a w0 = (None, g1, w1) \<and> run_stmts body g1 w1 = (x, g2, w2) \<and>
        \<not> m_locked g2"
  then have "guarded_block M t m a (run_stmts body) w0 =
     (fst (Lock_dtor M t g2 w2), Some x, snd (Lock_dtor M t g2 w2))"
    by (simp add: guarded_block_runs_dtor)
  with h show "guarded_block M t m a (run_stmts body) w0 = (None, Some x, w2)"
    by (simp add: Lock_dtor_unheld)
next
  assume h: "Lock_ctor M t m a w0 = (None, g1, w1) \<and> run_stmts pre g1 w1 = (FallThrough, g', w') \<and>
        s g' w' = (x, g2, w2) \<and> x \<noteq> FallThrough \<and>
        m_locked g2 \<and> unlock M t (prims w2 (m_mutex g2)) = Inr m2"
  then have "run_stmts (pre @ s # post) g1 w1 = (x, g2, w2)"
    by (simp add: run_stmts_exit)
  with h have "guarded_block M t m a (run_stmts (pre @ s # post)) w0 =
     (fst (Lock_dtor M t g2 w2), Some x, snd (Lock_dtor M t g2 w2))"
    by (simp add: guarded_block_runs_dtor)
  with h show "guarded_block M t m a (run_stmts (pre @ s # post)) w0 =
          (None, Some x,
           w2\<lparr>calls := calls w2 @ [UnlockCall t (m_mutex g2)],
              prims := (prims w2)(m_mutex g2 := m2)\<rparr>)"
    by (simp add: Lock_dtor_held_returns)
qed

theorem Lock_dtor_unlocks_once_when_held_witness:
  "Lock_dtor Mutex_prim 1 \<lparr>m_mutex = 0, m_locked = True\<rparr> \<lparr>prims = (\<lambda>_. Some 1), calls = []\<rparr>
     = (None, \<lparr>prims = (\<lambda>_. Some 1)(0 := None), calls = [UnlockCall 1 0]\<rparr>)
   \<and> Lock_dtor Mutex_prim 1 \<lparr>m_mutex = 0, m_locked = True\<rparr> \<lparr>prims = (\<lambda>_. None), calls = []\<rparr>
     = (Some Undefined, \<lparr>prims = (\<lambda>_. None), calls = [UnlockCall 1 0]\<rparr>)
   \<and> Lock_dtor Mutex_prim 1 \<lparr>m_mutex = 0, m_locked = False\<rparr> \<lparr>prims = (\<lambda>_. Some 1), calls = []\<rparr>
     = (None, \<lparr>prims = (\<lambda>_. Some 1), calls = []\<rparr>)
   \<and> guarded_block Mutex_prim 1 0 True
        (run_stmts [\<lambda>g w. (FallThrough, g, w)]) \<lparr>prims = (\<lambda>_. None), calls = []\<rparr>
     = (None, Some FallThrough,
        \<lparr>prims = (\<lambda>_. None)(0 := Some 1, 0 := None), calls = [LockCall 1 0, UnlockCall 1 0]\<rparr>)
   \<and> guarded_block Mutex_prim 1 0 True
        (run_stmts [\<lambda>g w. (FallThrough, g, w), \<lambda>g w. (EarlyReturn, g, w),
           \<lambda>g w. (FallThrough, fst (snd (release Mutex_prim 1 g w)),
             snd (snd (release Mutex_prim 1 g w)))])
        \<lparr>prims = (\<lambda>_. None), calls = []\<rparr>
     = (None, Some EarlyReturn,
        \<lparr>prims = (\<lambda>_. None)(0 := Some 1, 0 := None), calls = [LockCall 1 0, UnlockCall 1 0]\<rparr>)
   \<and> guarded_block Mutex_prim 1 0 True
        (run_stmts [\<lambda>g w. (Unwinding, g, w), \<lambda>g w. (FallThrough, fst (snd (release Mutex_prim 1 g w)),
             snd (snd (release Mutex_prim 1 g w)))])
        \<lparr>prims = (\<lambda>_. None), calls = []\<rparr>
     = (None, Some Unwinding,
        \<lparr>prims = (\<lambda>_. None)(0 := Some 1, 0 := None), calls = [LockCall 1 0, UnlockCall 1 0]\<rparr>)
   \<and> guarded_block Mutex_prim 1 0 False
        (run_stmts [\<lambda>g w. (EarlyReturn, g, w)]) \<lparr>prims = (\<lambda>_. None), calls = []\<rparr>
     = (None, Some EarlyReturn, \<lparr>prims = (\<lambda>_. None), calls = []\<rparr>)
   \<and> guarded_block Mutex_prim 1 0 True
        (run_stmts [\<lambda>g w. (FallThrough, fst (snd (release Mutex_prim 1 g w)),
             snd (snd (release Mutex_prim 1 g w)))])
        \<lparr>prims = (\<lambda>_. None), calls = []\<rparr>
     = (None, Some FallThrough,
        \<lparr>prims = (\<lambda>_. None)(0 := Some 1, 0 := None), calls = [LockCall 1 0, UnlockCall 1 0]\<rparr>)"
proof -
  let ?held = "\<lparr>m_mutex = 0, m_locked = True\<rparr>"
  let ?unheld = "\<lparr>m_mutex = 0, m_locked = False\<rparr>"
  let ?mine = "\<lparr>prims = (\<lambda>_. Some 1), calls = []\<rparr> :: Mutex world"
  let ?free = "\<lparr>prims = (\<lambda>_. None), calls = []\<rparr> :: Mutex world"
  let ?w1 = "\<lparr>prims = (\<lambda>_. None)(0 := Some 1), calls = [LockCall 1 0]\<rparr> :: Mutex world"
  let ?w3 = "\<lparr>prims = (\<lambda>_. None)(0 := Some 1, 0 := None),
    calls = [LockCall 1 0, UnlockCall 1 0]\<rparr> :: Mutex world"
  let ?work = "\<lambda>(g::Lock) (w::Mutex world). (FallThrough, g, w)"
  let ?ret = "\<lambda>(g::Lock) (w::Mutex world). (EarlyReturn, g, w)"
  let ?thr = "\<lambda>(g::Lock) (w::Mutex world). (Unwinding, g, w)"
  let ?rel = "\<lambda>(g::Lock) (w::Mutex world).
    (FallThrough, fst (snd (release Mutex_prim 1 g w)), snd (snd (release Mutex_prim 1 g w)))"
  have ctor: "Lock_ctor Mutex_prim 1 0 True ?free = (None, ?held, ?w1)"
    by (simp add: Lock_ctor_def call_lock_def Mutex_lock_def)
  have ctor': "Lock_ctor Mutex_prim 1 0 False ?free = (None, ?unheld, ?free)"
    by (simp add: Lock_ctor_def)
  have u1: "unlock Mutex_prim 1 (prims ?mine (m_mutex ?held)) = Inr None"
    and u2: "unlock Mutex_prim 1 (prims ?free (m_mutex ?held)) = Inl Undefined"
    and u3: "unlock Mutex_prim 1 (prims ?w1 (m_mutex ?held)) = Inr None"
    by (simp_all add: Mutex_unlock_def)
  have h: "m_locked ?held" and n: "\<not> m_locked ?unheld" by simp_all
  have ne: "EarlyReturn \<noteq> FallThrough" "Unwinding \<noteq> FallThrough" by simp_all
  from h u1 Lock_dtor_unlocks_once_when_held [where M = Mutex_prim and t = 1 and g = ?held and w = ?mine and m' = None]
  have "Lock_dtor Mutex_prim 1 ?held ?mine =
      (None, ?mine\<lparr>calls := calls ?mine @ [UnlockCall 1 (m_mutex ?held)],
               prims := (prims ?mine)(m_mutex ?held := None)\<rparr>)"
    by blast
  then have d1: "Lock_dtor Mutex_prim 1 ?held ?mine =
      (None, \<lparr>prims = (\<lambda>_. Some 1)(0 := None), calls = [UnlockCall 1 0]\<rparr>)"
    by simp
  from h u2 Lock_dtor_unlocks_once_when_held [where M = Mutex_prim and t = 1 and g = ?held and w = ?free and f = Undefined]
  have "Lock_dtor Mutex_prim 1 ?held ?free =
      (Some Undefined, ?free\<lparr>calls := calls ?free @ [UnlockCall 1 (m_mutex ?held)]\<rparr>)"
    by blast
  then have d2: "Lock_dtor Mutex_prim 1 ?held ?free =
      (Some Undefined, \<lparr>prims = (\<lambda>_. None), calls = [UnlockCall 1 0]\<rparr>)"
    by simp
  from n Lock_dtor_unlocks_once_when_held [where M = Mutex_prim and t = 1 and g = ?unheld and w = ?mine]
  have d3: "Lock_dtor Mutex_prim 1 ?unheld ?mine = (None, ?mine)" by blast
  have b1: "run_stmts [?work] ?held ?w1 = (FallThrough, ?held, ?w1)" by simp
  from ctor b1 h u3 Lock_dtor_unlocks_once_when_held [where M = Mutex_prim and t = 1 and m = 0 and a = True and ?w0.0 = ?free
    and ?g1.0 = ?held and ?w1.0 = ?w1 and body = "[?work]" and x = FallThrough
    and ?g2.0 = ?held and ?w2.0 = ?w1 and ?m2.0 = None]
  have "guarded_block Mutex_prim 1 0 True (run_stmts [?work]) ?free =
      (None, Some FallThrough,
       ?w1\<lparr>calls := calls ?w1 @ [UnlockCall 1 (m_mutex ?held)],
           prims := (prims ?w1)(m_mutex ?held := None)\<rparr>)"
    by blast
  then have g1: "guarded_block Mutex_prim 1 0 True (run_stmts [?work]) ?free =
      (None, Some FallThrough, ?w3)"
    by simp
  have p2: "run_stmts [?work] ?held ?w1 = (FallThrough, ?held, ?w1)"
    and s2: "?ret ?held ?w1 = (EarlyReturn, ?held, ?w1)"
    by simp_all
  from ctor p2 s2 ne(1) h u3 Lock_dtor_unlocks_once_when_held [where M = Mutex_prim and t = 1 and m = 0 and a = True
    and ?w0.0 = ?free and ?g1.0 = ?held and ?w1.0 = ?w1 and pre = "[?work]" and g' = ?held
    and w' = ?w1 and s = ?ret and x = EarlyReturn and ?g2.0 = ?held and ?w2.0 = ?w1
    and ?m2.0 = None and post = "[?rel]"]
  have "guarded_block Mutex_prim 1 0 True (run_stmts ([?work] @ ?ret # [?rel])) ?free =
      (None, Some EarlyReturn,
       ?w1\<lparr>calls := calls ?w1 @ [UnlockCall 1 (m_mutex ?held)],
           prims := (prims ?w1)(m_mutex ?held := None)\<rparr>)"
    by blast
  then have g2: "guarded_block Mutex_prim 1 0 True (run_stmts [?work, ?ret, ?rel]) ?free =
      (None, Some EarlyReturn, ?w3)"
    by simp
  have p3: "run_stmts [] ?held ?w1 = (FallThrough, ?held, ?w1)"
    and s3: "?thr ?held ?w1 = (Unwinding, ?held, ?w1)"
    by simp_all
  from ctor p3 s3 ne(2) h u3 Lock_dtor_unlocks_once_when_held [where M = Mutex_prim and t = 1 and m = 0 and a = True
    and ?w0.0 = ?free and ?g1.0 = ?held and ?w1.0 = ?w1 and pre = "[]" and g' = ?held
    and w' = ?w1 and s = ?thr and x = Unwinding and ?g2.0 = ?held and ?w2.0 = ?w1
    and ?m2.0 = None and post = "[?rel]"]
  have "guarded_block Mutex_prim 1 0 True (run_stmts ([] @ ?thr # [?rel])) ?free =
      (None, Some Unwinding,
       ?w1\<lparr>calls := calls ?w1 @ [UnlockCall 1 (m_mutex ?held)],
           prims := (prims ?w1)(m_mutex ?held := None)\<rparr>)"
    by blast
  then have g3: "guarded_block Mutex_prim 1 0 True (run_stmts [?thr, ?rel]) ?free =
      (None, Some Unwinding, ?w3)"
    by simp
  have b4: "run_stmts [?ret] ?unheld ?free = (EarlyReturn, ?unheld, ?free)" by simp
  from ctor' b4 n Lock_dtor_unlocks_once_when_held [where M = Mutex_prim and t = 1 and m = 0 and a = False and ?w0.0 = ?free
    and ?g1.0 = ?unheld and ?w1.0 = ?free and body = "[?ret]" and x = EarlyReturn
    and ?g2.0 = ?unheld and ?w2.0 = ?free]
  have g4: "guarded_block Mutex_prim 1 0 False (run_stmts [?ret]) ?free =
      (None, Some EarlyReturn, ?free)"
    by blast
  have b5: "run_stmts [?rel] ?held ?w1 = (FallThrough, ?unheld, ?w3)"
    by (simp add: release_def call_unlock_def Mutex_unlock_def)
  from ctor b5 n Lock_dtor_unlocks_once_when_held [where M = Mutex_prim and t = 1 and m = 0 and a = True and ?w0.0 = ?free
    and ?g1.0 = ?held and ?w1.0 = ?w1 and body = "[?rel]" and x = FallThrough
    and ?g2.0 = ?unheld and ?w2.0 = ?w3]
  have g5: "guarded_block Mutex_prim 1 0 True (run_stmts [?rel]) ?free =
      (None, Some FallThrough, ?w3)"
    by blast
  show ?thesis by (intro conjI) (rule d1 d2 d3 g1 g2 g3 g4 g5)+
qed

subsection \<open>Construction\<close>

text \<open>
  Claim C2.  Constructing a guard with \<open>autoLock = true\<close> calls the primitive's lock
  operation during construction.  Whenever that call returns, the constructor returns, the
  flag is set, \<open>locked ()\<close> answers true, and the primitive is in the state its lock
  operation produced; and the constructor returns in no other case.  On the primitive of
  the specification the constructor returns exactly when the primitive is free, and then
  the primitive is held by the constructing thread: as long as it stays so, every lock
  call by any thread, through a new guard or through \<open>acquire ()\<close> on another guard,
  fails to return and leaves the primitive as it is; once the guard has released,
  another thread's construction returns.
\<close>

theorem Lock_ctor_auto_lock_holds:
  "calls (snd (snd (Lock_ctor M t m True w))) = calls w @ [LockCall t m]
   \<and> (lock M t (prims w m) = Inr m' \<longrightarrow>
        Lock_ctor M t m True w =
          (None, \<lparr>m_mutex = m, m_locked = True\<rparr>,
           w\<lparr>calls := calls w @ [LockCall t m], prims := (prims w)(m := m')\<rparr>) \<and>
        fst (locked (fst (snd (Lock_ctor M t m True w))) (snd (snd (Lock_ctor M t m True w)))))
   \<and> (Lock_ctor M t m True w = (None, g, w') \<longrightarrow>
        m_mutex g = m \<and> m_locked g \<and> locked g w' = (True, g, w') \<and>
        lock M t (prims w m) = Inr (prims w' m))
   \<and> (fst (Lock_ctor Mutex_prim t m True v) = None \<longleftrightarrow> prims v m = None)
   \<and> (prims v m = None \<longrightarrow>
        (\<exists>v'. Lock_ctor Mutex_prim t m True v = (None, \<lparr>m_mutex = m, m_locked = True\<rparr>, v') \<and>
          prims v' m = Some t \<and>
          (\<forall>v2 u. prims v2 m = prims v' m \<longrightarrow>
             fst (call_lock Mutex_prim u m v2) = Some (if u = t then Undefined else Blocked) \<and>
             prims (snd (call_lock Mutex_prim u m v2)) = prims v2 \<and>
             fst (Lock_ctor Mutex_prim u m True v2) \<noteq> None \<and>
             (\<forall>k. m_mutex k = m \<longrightarrow> fst (acquire Mutex_prim u k v2) \<noteq> None)) \<and>
          (\<forall>u. fst (Lock_ctor Mutex_prim u m True
                 (snd (snd (release Mutex_prim t \<lparr>m_mutex = m, m_locked = True\<rparr> v')))) = None)))"
proof (intro conjI impI)
  show "calls (snd (snd (Lock_ctor M t m True w))) = calls w @ [LockCall t m]"
    by (cases "lock M t (prims w m)") (simp_all add: Lock_ctor_auto_fails Lock_ctor_auto_returns)
next
  assume r: "lock M t (prims w m) = Inr m'"
  from Lock_ctor_auto_returns [OF r]
  show eq: "Lock_ctor M t m True w =
          (None, \<lparr>m_mutex = m, m_locked = True\<rparr>,
           w\<lparr>calls := calls w @ [LockCall t m], prims := (prims w)(m := m')\<rparr>)" .
  then show "fst (locked (fst (snd (Lock_ctor M t m True w))) (snd (snd (Lock_ctor M t m True w))))"
    by (simp add: locked_def)
next
  assume r: "Lock_ctor M t m True w = (None, g, w')"
  then obtain m' where m': "lock M t (prims w m) = Inr m'"
    by (cases "lock M t (prims w m)") (simp_all add: Lock_ctor_auto_fails)
  from r Lock_ctor_auto_returns [OF m']
  have g: "g = \<lparr>m_mutex = m, m_locked = True\<rparr>"
    and w': "w' = w\<lparr>calls := calls w @ [LockCall t m], prims := (prims w)(m := m')\<rparr>"
    by simp_all
  from g show "m_mutex g = m" and "m_locked g" by simp_all
  from g show "locked g w' = (True, g, w')" by (simp add: locked_def)
  from m' w' show "lock M t (prims w m) = Inr (prims w' m)" by simp
next
  show "fst (Lock_ctor Mutex_prim t m True v) = None \<longleftrightarrow> prims v m = None"
  proof (cases "prims v m")
    case None
    then have "lock Mutex_prim t (prims v m) = Inr (Some t)" by (simp add: Mutex_lock_free)
    from Lock_ctor_auto_returns [OF this] None show ?thesis by simp
  next
    case (Some u)
    then have "lock Mutex_prim t (prims v m) = Inl (if t = u then Undefined else Blocked)"
      by (simp add: Mutex_lock_held)
    from Lock_ctor_auto_fails [OF this] Some show ?thesis by simp
  qed
next
  assume free: "prims v m = None"
  let ?h = "\<lparr>m_mutex = m, m_locked = True\<rparr>"
  let ?v' = "v\<lparr>calls := calls v @ [LockCall t m], prims := (prims v)(m := Some t)\<rparr>"
  from free have "lock Mutex_prim t (prims v m) = Inr (Some t)" by (simp add: Mutex_lock_free)
  from Lock_ctor_auto_returns [OF this]
  have ctor: "Lock_ctor Mutex_prim t m True v = (None, ?h, ?v')" .
  have held: "prims ?v' m = Some t" by simp
  have busy: "\<forall>v2 u. prims v2 m = prims ?v' m \<longrightarrow>
           fst (call_lock Mutex_prim u m v2) = Some (if u = t then Undefined else Blocked) \<and>
           prims (snd (call_lock Mutex_prim u m v2)) = prims v2 \<and>
           fst (Lock_ctor Mutex_prim u m True v2) \<noteq> None \<and>
           (\<forall>k. m_mutex k = m \<longrightarrow> fst (acquire Mutex_prim u k v2) \<noteq> None)"
  proof (intro allI impI)
    fix v2 :: "Mutex world" and u
    assume "prims v2 m = prims ?v' m"
    with held have "prims v2 m = Some t" by simp
    then have f: "lock Mutex_prim u (prims v2 m) = Inl (if u = t then Undefined else Blocked)"
      by (simp add: Mutex_lock_held)
    have k: "\<forall>k. m_mutex k = m \<longrightarrow> fst (acquire Mutex_prim u k v2) \<noteq> None"
    proof (intro allI impI)
      fix k :: Lock assume "m_mutex k = m"
      with f have "lock Mutex_prim u (prims v2 (m_mutex k)) = Inl (if u = t then Undefined else Blocked)"
        by simp
      from acquire_fails [OF this] show "fst (acquire Mutex_prim u k v2) \<noteq> None" by simp
    qed
    from call_lock_fails [OF f] Lock_ctor_auto_fails [OF f] k
    show "fst (call_lock Mutex_prim u m v2) = Some (if u = t then Undefined else Blocked) \<and>
           prims (snd (call_lock Mutex_prim u m v2)) = prims v2 \<and>
           fst (Lock_ctor Mutex_prim u m True v2) \<noteq> None \<and>
           (\<forall>k. m_mutex k = m \<longrightarrow> fst (acquire Mutex_prim u k v2) \<noteq> None)"
      by simp
  qed
  have freed: "\<forall>u. fst (Lock_ctor Mutex_prim u m True (snd (snd (release Mutex_prim t ?h ?v')))) = None"
  proof
    fix u
    from held have "unlock Mutex_prim t (prims ?v' (m_mutex ?h)) = Inr None"
      by (simp add: Mutex_unlock_returns_iff)
    from release_returns [OF this]
    have "prims (snd (snd (release Mutex_prim t ?h ?v'))) m = None" by simp
    then have "lock Mutex_prim u (prims (snd (snd (release Mutex_prim t ?h ?v'))) m) = Inr (Some u)"
      by (simp add: Mutex_lock_free)
    from Lock_ctor_auto_returns [OF this]
    show "fst (Lock_ctor Mutex_prim u m True (snd (snd (release Mutex_prim t ?h ?v')))) = None"
      by simp
  qed
  from ctor held busy freed
  show "\<exists>v'. Lock_ctor Mutex_prim t m True v = (None, ?h, v') \<and>
          prims v' m = Some t \<and>
          (\<forall>v2 u. prims v2 m = prims v' m \<longrightarrow>
             fst (call_lock Mutex_prim u m v2) = Some (if u = t then Undefined else Blocked) \<and>
             prims (snd (call_lock Mutex_prim u m v2)) = prims v2 \<and>
             fst (Lock_ctor Mutex_prim u m True v2) \<noteq> None \<and>
             (\<forall>k. m_mutex k = m \<longrightarrow> fst (acquire Mutex_prim u k v2) \<noteq> None)) \<and>
          (\<forall>u. fst (Lock_ctor Mutex_prim u m True
                 (snd (snd (release Mutex_prim t ?h v')))) = None)"
    by (intro exI [of _ ?v'] conjI)
qed

theorem Lock_ctor_auto_lock_holds_witness:
  "lock Mutex_prim 1 (prims (\<lparr>prims = (\<lambda>_. None), calls = []\<rparr> :: Mutex world) 0) = Inr (Some 1)
   \<and> Lock_ctor Mutex_prim 1 0 True \<lparr>prims = (\<lambda>_. None), calls = []\<rparr>
     = (None, \<lparr>m_mutex = 0, m_locked = True\<rparr>,
        \<lparr>prims = (\<lambda>_. None)(0 := Some 1), calls = [LockCall 1 0]\<rparr>)
   \<and> locked \<lparr>m_mutex = 0, m_locked = True\<rparr>
        (\<lparr>prims = (\<lambda>_. None)(0 := Some 1), calls = [LockCall 1 0]\<rparr> :: Mutex world)
     = (True, \<lparr>m_mutex = 0, m_locked = True\<rparr>,
        \<lparr>prims = (\<lambda>_. None)(0 := Some 1), calls = [LockCall 1 0]\<rparr>)
   \<and> fst (call_lock Mutex_prim 2 0 \<lparr>prims = (\<lambda>_. None)(0 := Some 1), calls = [LockCall 1 0]\<rparr>)
     = Some Blocked
   \<and> fst (Lock_ctor Mutex_prim 2 0 True
        \<lparr>prims = (\<lambda>_. None)(0 := Some 1), calls = [LockCall 1 0]\<rparr>) \<noteq> None
   \<and> fst (Lock_ctor Mutex_prim 2 0 True
        (snd (snd (release Mutex_prim 1 \<lparr>m_mutex = 0, m_locked = True\<rparr>
           \<lparr>prims = (\<lambda>_. None)(0 := Some 1), calls = [LockCall 1 0]\<rparr>)))) = None"
proof -
  let ?free = "\<lparr>prims = (\<lambda>_. None), calls = []\<rparr> :: Mutex world"
  let ?held = "\<lparr>m_mutex = 0, m_locked = True\<rparr>"
  let ?w1 = "\<lparr>prims = (\<lambda>_. None)(0 := Some 1), calls = [LockCall 1 0]\<rparr> :: Mutex world"
  have ret: "lock Mutex_prim 1 (prims ?free 0) = Inr (Some 1)"
    by (simp add: Mutex_lock_def)
  have free: "prims ?free 0 = None" by simp
  note inst = Lock_ctor_auto_lock_holds [where M = Mutex_prim and t = 1 and m = 0 and w = ?free and m' = "Some 1"
    and g = ?held and w' = ?w1 and v = ?free]
  from ret inst have "Lock_ctor Mutex_prim 1 0 True ?free =
      (None, ?held, ?free\<lparr>calls := calls ?free @ [LockCall 1 0], prims := (prims ?free)(0 := Some 1)\<rparr>)"
    by blast
  then have ctor: "Lock_ctor Mutex_prim 1 0 True ?free = (None, ?held, ?w1)" by simp
  from ctor inst have q: "locked ?held ?w1 = (True, ?held, ?w1)" by blast
  from free inst obtain v' where v': "Lock_ctor Mutex_prim 1 0 True ?free = (None, ?held, v')"
    and busy: "\<forall>v2 u. prims v2 0 = prims v' 0 \<longrightarrow>
       fst (call_lock Mutex_prim u 0 v2) = Some (if u = 1 then Undefined else Blocked) \<and>
       prims (snd (call_lock Mutex_prim u 0 v2)) = prims v2 \<and>
       fst (Lock_ctor Mutex_prim u 0 True v2) \<noteq> None \<and>
       (\<forall>k. m_mutex k = 0 \<longrightarrow> fst (acquire Mutex_prim u k v2) \<noteq> None)"
    and freed: "\<forall>u. fst (Lock_ctor Mutex_prim u 0 True (snd (snd (release Mutex_prim 1 ?held v')))) = None"
    by blast
  from v' ctor have v'_eq: "v' = ?w1" by simp
  from busy v'_eq
  have "fst (call_lock Mutex_prim 2 0 ?w1) = Some (if (2::nat) = 1 then Undefined else Blocked) \<and>
       fst (Lock_ctor Mutex_prim 2 0 True ?w1) \<noteq> None"
    by blast
  then have blocked: "fst (call_lock Mutex_prim 2 0 ?w1) = Some Blocked"
    and refused: "fst (Lock_ctor Mutex_prim 2 0 True ?w1) \<noteq> None"
    by simp_all
  from freed v'_eq
  have again: "fst (Lock_ctor Mutex_prim 2 0 True (snd (snd (release Mutex_prim 1 ?held ?w1)))) = None"
    by blast
  show ?thesis by (intro conjI) (rule ret ctor q blocked refused again)+
qed

text \<open>
  Claim C3.  Constructing a guard with \<open>autoLock = false\<close> returns a guard with the flag
  clear and the program state exactly as it was: no call is made on the primitive and
  its state is unchanged.  \<open>locked ()\<close> answers false, the destructor of such a guard
  does nothing, and the first call on the primitive is the one an explicit
  \<open>acquire ()\<close> makes.
\<close>

theorem Lock_ctor_deferred_does_nothing:
  "Lock_ctor M t m False w = (None, \<lparr>m_mutex = m, m_locked = False\<rparr>, w)
   \<and> locked \<lparr>m_mutex = m, m_locked = False\<rparr> w = (False, \<lparr>m_mutex = m, m_locked = False\<rparr>, w)
   \<and> Lock_dtor M t \<lparr>m_mutex = m, m_locked = False\<rparr> w = (None, w)
   \<and> calls (snd (snd (acquire M t \<lparr>m_mutex = m, m_locked = False\<rparr> w))) = calls w @ [LockCall t m]"
  using acquire_calls [of M t "\<lparr>m_mutex = m, m_locked = False\<rparr>" w]
  by (simp add: Lock_ctor_def locked_def Lock_dtor_def)

subsection \<open>Explicit release and acquire\<close>

text \<open>
  Claim C5.  When the guard's thread holds the primitive, \<open>release ()\<close> returns, after
  it \<open>locked ()\<close> answers false, and an \<open>acquire ()\<close> that follows returns as well: it
  calls the primitive's lock operation, sets the flag again, and the primitive is held
  by the thread as before.  The record of calls grows by one unlock and one lock.
  \<open>release ()\<close> returns exactly when the thread holds the primitive.
\<close>

theorem release_then_acquire_succeeds:
  "(prims w (m_mutex g) = Some t \<longrightarrow>
      (\<exists>w1 w2.
         release Mutex_prim t g w = (None, g\<lparr>m_locked := False\<rparr>, w1) \<and>
         locked (g\<lparr>m_locked := False\<rparr>) w1 = (False, g\<lparr>m_locked := False\<rparr>, w1) \<and>
         acquire Mutex_prim t (g\<lparr>m_locked := False\<rparr>) w1 = (None, g\<lparr>m_locked := True\<rparr>, w2) \<and>
         locked (g\<lparr>m_locked := True\<rparr>) w2 = (True, g\<lparr>m_locked := True\<rparr>, w2) \<and>
         calls w2 = calls w @ [UnlockCall t (m_mutex g), LockCall t (m_mutex g)] \<and>
         prims w2 = prims w))
   \<and> (fst (release Mutex_prim t g w) = None \<longleftrightarrow> prims w (m_mutex g) = Some t)"
proof (intro conjI impI)
  assume held: "prims w (m_mutex g) = Some t"
  define w1 where "w1 = w\<lparr>calls := calls w @ [UnlockCall t (m_mutex g)],
    prims := (prims w)(m_mutex g := None)\<rparr>"
  define w2 where "w2 = w1\<lparr>calls := calls w1 @ [LockCall t (m_mutex g)],
    prims := (prims w1)(m_mutex g := Some t)\<rparr>"
  from held have "unlock Mutex_prim t (prims w (m_mutex g)) = Inr None"
    by (simp add: Mutex_unlock_returns_iff)
  from release_returns [OF this]
  have rel: "release Mutex_prim t g w = (None, g\<lparr>m_locked := False\<rparr>, w1)"
    by (simp add: w1_def)
  have "lock Mutex_prim t (prims w1 (m_mutex (g\<lparr>m_locked := False\<rparr>))) = Inr (Some t)"
    by (simp add: w1_def Mutex_lock_free)
  from acquire_returns [OF this]
  have acq: "acquire Mutex_prim t (g\<lparr>m_locked := False\<rparr>) w1 = (None, g\<lparr>m_locked := True\<rparr>, w2)"
    by (simp add: w2_def)
  have c: "calls w2 = calls w @ [UnlockCall t (m_mutex g), LockCall t (m_mutex g)]"
    by (simp add: w2_def w1_def)
  from held have p: "prims w2 = prims w"
    by (auto simp: w2_def w1_def)
  from rel acq c p
  show "\<exists>w1 w2.
         release Mutex_prim t g w = (None, g\<lparr>m_locked := False\<rparr>, w1) \<and>
         locked (g\<lparr>m_locked := False\<rparr>) w1 = (False, g\<lparr>m_locked := False\<rparr>, w1) \<and>
         acquire Mutex_prim t (g\<lparr>m_locked := False\<rparr>) w1 = (None, g\<lparr>m_locked := True\<rparr>, w2) \<and>
         locked (g\<lparr>m_locked := True\<rparr>) w2 = (True, g\<lparr>m_locked := True\<rparr>, w2) \<and>
         calls w2 = calls w @ [UnlockCall t (m_mutex g), LockCall t (m_mutex g)] \<and>
         prims w2 = prims w"
    by (simp add: locked_def)
next
  show "fst (release Mutex_prim t g w) = None \<longleftrightarrow> prims w (m_mutex g) = Some t"
  proof (cases "prims w (m_mutex g) = Some t")
    case True
    then have "unlock Mutex_prim t (prims w (m_mutex g)) = Inr None"
      by (simp add: Mutex_unlock_returns_iff)
    from release_returns [OF this] True show ?thesis by simp
  next
    case False
    then have "unlock Mutex_prim t (prims w (m_mutex g)) = Inl Undefined"
      by (simp add: Mutex_unlock_other)
    from release_fails [OF this] False show ?thesis by simp
  qed
qed

theorem release_then_acquire_succeeds_witness:
  "prims \<lparr>prims = (\<lambda>_. None)(0 := Some 1), calls = [LockCall 1 0]\<rparr> 0 = Some 1
   \<and> fst (release Mutex_prim 1 \<lparr>m_mutex = 0, m_locked = True\<rparr>
        \<lparr>prims = (\<lambda>_. None)(0 := Some 1), calls = [LockCall 1 0]\<rparr>) = None
   \<and> (\<exists>w1 w2.
        release Mutex_prim 1 \<lparr>m_mutex = 0, m_locked = True\<rparr>
          \<lparr>prims = (\<lambda>_. None)(0 := Some 1), calls = [LockCall 1 0]\<rparr>
          = (None, \<lparr>m_mutex = 0, m_locked = False\<rparr>, w1) \<and>
        acquire Mutex_prim 1 \<lparr>m_mutex = 0, m_locked = False\<rparr> w1
          = (None, \<lparr>m_mutex = 0, m_locked = True\<rparr>, w2) \<and>
        calls w2 = [LockCall 1 0, UnlockCall 1 0, LockCall 1 0])"
proof -
  let ?held = "\<lparr>m_mutex = 0, m_locked = True\<rparr>"
  let ?w = "\<lparr>prims = (\<lambda>_. None)(0 := Some 1), calls = [LockCall 1 0]\<rparr> :: Mutex world"
  have h: "prims ?w (m_mutex ?held) = Some 1" by simp
  note inst = release_then_acquire_succeeds [where g = ?held and w = ?w and t = 1]
  from h inst have r: "fst (release Mutex_prim 1 ?held ?w) = None" by blast
  from h inst have "\<exists>w1 w2.
         release Mutex_prim 1 ?held ?w = (None, ?held\<lparr>m_locked := False\<rparr>, w1) \<and>
         locked (?held\<lparr>m_locked := False\<rparr>) w1 = (False, ?held\<lparr>m_locked := False\<rparr>, w1) \<and>
         acquire Mutex_prim 1 (?held\<lparr>m_locked := False\<rparr>) w1 = (None, ?held\<lparr>m_locked := True\<rparr>, w2) \<and>
         locked (?held\<lparr>m_locked := True\<rparr>) w2 = (True, ?held\<lparr>m_locked := True\<rparr>, w2) \<and>
         calls w2 = calls ?w @ [UnlockCall 1 (m_mutex ?held), LockCall 1 (m_mutex ?held)] \<and>
         prims w2 = prims ?w"
    by blast
  then have "\<exists>w1 w2.
        release Mutex_prim 1 ?held ?w = (None, \<lparr>m_mutex = 0, m_locked = False\<rparr>, w1) \<and>
        acquire Mutex_prim 1 \<lparr>m_mutex = 0, m_locked = False\<rparr> w1 = (None, ?held, w2) \<and>
        calls w2 = [LockCall 1 0, UnlockCall 1 0, LockCall 1 0]"
    by auto
  with h r show ?thesis by simp
qed

text \<open>
  Claim C6.  \<open>release ()\<close> calls the primitive's unlock operation whatever the flag is,
  and when that call returns the flag is clear.  Neither \<open>release ()\<close> nor
  \<open>acquire ()\<close> reads the flag: each makes its call on the primitive, ends the way that
  call ends and leaves the program state that call leaves, so the guard adds no check
  and no failure of its own.  Where the primitive's call returns, the member function
  returns normally, also for a release with the flag clear and for an acquire with the
  flag set.
\<close>

theorem release_acquire_unconditional:
  "calls (snd (snd (release M t g w))) = calls w @ [UnlockCall t (m_mutex g)]
   \<and> fst (release M t g w) = fst (call_unlock M t (m_mutex g) w)
   \<and> snd (snd (release M t g w)) = snd (call_unlock M t (m_mutex g) w)
   \<and> (fst (release M t g w) = None \<longrightarrow> \<not> m_locked (fst (snd (release M t g w))))
   \<and> (unlock M t (prims w (m_mutex g)) = Inr m' \<longrightarrow>
        release M t g w =
          (None, g\<lparr>m_locked := False\<rparr>,
           w\<lparr>calls := calls w @ [UnlockCall t (m_mutex g)], prims := (prims w)(m_mutex g := m')\<rparr>))
   \<and> calls (snd (snd (acquire M t g w))) = calls w @ [LockCall t (m_mutex g)]
   \<and> fst (acquire M t g w) = fst (call_lock M t (m_mutex g) w)
   \<and> snd (snd (acquire M t g w)) = snd (call_lock M t (m_mutex g) w)
   \<and> (lock M t (prims w (m_mutex g)) = Inr m'' \<longrightarrow>
        acquire M t g w =
          (None, g\<lparr>m_locked := True\<rparr>,
           w\<lparr>calls := calls w @ [LockCall t (m_mutex g)], prims := (prims w)(m_mutex g := m'')\<rparr>))"
proof (intro conjI impI)
  assume "fst (release M t g w) = None"
  then show "\<not> m_locked (fst (snd (release M t g w)))"
    by (cases "unlock M t (prims w (m_mutex g))") (simp_all add: release_fails release_returns)
qed (simp_all add: release_calls acquire_calls release_outcome acquire_outcome
       release_returns acquire_returns call_lock_calls call_unlock_calls)

theorem release_acquire_unconditional_witness:
  "release Mutex_prim 1 \<lparr>m_mutex = 0, m_locked = False\<rparr> \<lparr>prims = (\<lambda>_. Some 1), calls = []\<rparr>
     = (None, \<lparr>m_mutex = 0, m_locked = False\<rparr>,
        \<lparr>prims = (\<lambda>_. Some 1)(0 := None), calls = [UnlockCall 1 0]\<rparr>)
   \<and> \<not> m_locked (fst (snd (release Mutex_prim 1 \<lparr>m_mutex = 0, m_locked = True\<rparr>
        \<lparr>prims = (\<lambda>_. Some 1), calls = []\<rparr>)))
   \<and> acquire Mutex_prim 1 \<lparr>m_mutex = 0, m_locked = True\<rparr> \<lparr>prims = (\<lambda>_. None), calls = []\<rparr>
     = (None, \<lparr>m_mutex = 0, m_locked = True\<rparr>,
        \<lparr>prims = (\<lambda>_. None)(0 := Some 1), calls = [LockCall 1 0]\<rparr>)"
proof -
  let ?held = "\<lparr>m_mutex = 0, m_locked = True\<rparr>"
  let ?unheld = "\<lparr>m_mutex = 0, m_locked = False\<rparr>"
  let ?w = "\<lparr>prims = (\<lambda>_. Some 1), calls = []\<rparr> :: Mutex world"
  let ?free = "\<lparr>prims = (\<lambda>_. None), calls = []\<rparr> :: Mutex world"
  have u: "unlock Mutex_prim 1 (prims ?w (m_mutex ?unheld)) = Inr None"
    by (simp add: Mutex_unlock_def)
  from u release_acquire_unconditional [where M = Mutex_prim and t = 1 and g = ?unheld and w = ?w and m' = None]
  have "release Mutex_prim 1 ?unheld ?w =
          (None, ?unheld\<lparr>m_locked := False\<rparr>,
           ?w\<lparr>calls := calls ?w @ [UnlockCall 1 (m_mutex ?unheld)],
               prims := (prims ?w)(m_mutex ?unheld := None)\<rparr>)"
    by blast
  then have a: "release Mutex_prim 1 ?unheld ?w =
     (None, ?unheld, \<lparr>prims = (\<lambda>_. Some 1)(0 := None), calls = [UnlockCall 1 0]\<rparr>)"
    by simp
  have "fst (release Mutex_prim 1 ?held ?w) = None"
    by (simp add: release_def call_unlock_def Mutex_unlock_def)
  with release_acquire_unconditional [where M = Mutex_prim and t = 1 and g = ?held and w = ?w]
  have b: "\<not> m_locked (fst (snd (release Mutex_prim 1 ?held ?w)))"
    by blast
  have l: "lock Mutex_prim 1 (prims ?free (m_mutex ?held)) = Inr (Some 1)"
    by (simp add: Mutex_lock_def)
  from l release_acquire_unconditional [where M = Mutex_prim and t = 1 and g = ?held and w = ?free and m'' = "Some 1"]
  have "acquire Mutex_prim 1 ?held ?free =
          (None, ?held\<lparr>m_locked := True\<rparr>,
           ?free\<lparr>calls := calls ?free @ [LockCall 1 (m_mutex ?held)],
               prims := (prims ?free)(m_mutex ?held := Some 1)\<rparr>)"
    by blast
  then have c: "acquire Mutex_prim 1 ?held ?free =
     (None, ?held, \<lparr>prims = (\<lambda>_. None)(0 := Some 1), calls = [LockCall 1 0]\<rparr>)"
    by simp
  show ?thesis by (intro conjI) (rule a b c)+
qed

subsection \<open>The query\<close>

text \<open>
  Claim C7.  In every state \<open>locked ()\<close> returns exactly the flag, and leaves both the
  guard (its flag and its reference) and the program state, so also the state of the
  referenced primitive and the record of calls, as they were.
\<close>

theorem locked_is_pure_query:
  "fst (locked g w) = m_locked g
   \<and> fst (snd (locked g w)) = g
   \<and> snd (snd (locked g w)) = w
   \<and> m_locked (fst (snd (locked g w))) = m_locked g
   \<and> prims (snd (snd (locked g w))) (m_mutex g) = prims w (m_mutex g)
   \<and> calls (snd (snd (locked g w))) = calls w"
  by (simp add: locked_def)

subsection \<open>A lock call that does not return\<close>

text \<open>
  Claim C10.  The flag is set only after the primitive's lock call has returned.  If the
  call made by the auto-locking constructor does not return (it blocks, or leaves by an
  exception), the flag is still clear, a block declaring the guard runs no destructor,
  and a destructor run on the guard would do nothing.  If the call made by
  \<open>acquire ()\<close> does not return, the guard is unchanged, so a guard whose flag was
  clear keeps it clear and its destructor does nothing.  Conversely a flag that has
  become set means the lock call returned.
\<close>

theorem failed_lock_leaves_guard_unchanged:
  "(lock M t (prims w m) = Inl f \<longrightarrow>
      Lock_ctor M t m True w =
        (Some f, \<lparr>m_mutex = m, m_locked = False\<rparr>, w\<lparr>calls := calls w @ [LockCall t m]\<rparr>) \<and>
      guarded_block M t m True body w = (Some f, None, w\<lparr>calls := calls w @ [LockCall t m]\<rparr>) \<and>
      Lock_dtor M t \<lparr>m_mutex = m, m_locked = False\<rparr> w' = (None, w'))
   \<and> (lock M t (prims w (m_mutex g)) = Inl f' \<longrightarrow>
        acquire M t g w = (Some f', g, w\<lparr>calls := calls w @ [LockCall t (m_mutex g)]\<rparr>) \<and>
        (\<not> m_locked g \<longrightarrow> Lock_dtor M t g w' = (None, w')))
   \<and> (m_locked (fst (snd (Lock_ctor M t m True w))) \<longrightarrow>
        (\<exists>m'. lock M t (prims w m) = Inr m'))
   \<and> (\<not> m_locked g \<and> m_locked (fst (snd (acquire M t g w))) \<longrightarrow>
        (\<exists>m'. lock M t (prims w (m_mutex g)) = Inr m'))"
proof (intro conjI impI)
  assume f: "lock M t (prims w m) = Inl f"
  from Lock_ctor_auto_fails [OF f]
  show c: "Lock_ctor M t m True w =
        (Some f, \<lparr>m_mutex = m, m_locked = False\<rparr>, w\<lparr>calls := calls w @ [LockCall t m]\<rparr>)" .
  then show "guarded_block M t m True body w = (Some f, None, w\<lparr>calls := calls w @ [LockCall t m]\<rparr>)"
    by (simp add: guarded_block_def)
  show "Lock_dtor M t \<lparr>m_mutex = m, m_locked = False\<rparr> w' = (None, w')"
    by (simp add: Lock_dtor_def)
next
  assume f: "lock M t (prims w (m_mutex g)) = Inl f'"
  from acquire_fails [OF f]
  show "acquire M t g w = (Some f', g, w\<lparr>calls := calls w @ [LockCall t (m_mutex g)]\<rparr>)" .
next
  assume "\<not> m_locked g"
  then show "Lock_dtor M t g w' = (None, w')" by (simp add: Lock_dtor_def)
next
  assume "m_locked (fst (snd (Lock_ctor M t m True w)))"
  then show "\<exists>m'. lock M t (prims w m) = Inr m'"
    by (cases "lock M t (prims w m)") (simp_all add: Lock_ctor_auto_fails)
next
  assume "\<not> m_locked g \<and> m_locked (fst (snd (acquire M t g w)))"
  then show "\<exists>m'. lock M t (prims w (m_mutex g)) = Inr m'"
    by (cases "lock M t (prims w (m_mutex g))") (simp_all add: acquire_fails)
qed

theorem failed_lock_leaves_guard_unchanged_witness:
  "Lock_ctor Mutex_prim 1 0 True \<lparr>prims = (\<lambda>_. Some 2), calls = []\<rparr>
     = (Some Blocked, \<lparr>m_mutex = 0, m_locked = False\<rparr>,
        \<lparr>prims = (\<lambda>_. Some 2), calls = [LockCall 1 0]\<rparr>)
   \<and> acquire Mutex_prim 1 \<lparr>m_mutex = 0, m_locked = False\<rparr> \<lparr>prims = (\<lambda>_. Some 2), calls = []\<rparr>
     = (Some Blocked, \<lparr>m_mutex = 0, m_locked = False\<rparr>,
        \<lparr>prims = (\<lambda>_. Some 2), calls = [LockCall 1 0]\<rparr>)
   \<and> Lock_dtor Mutex_prim 1 \<lparr>m_mutex = 0, m_locked = False\<rparr>
        \<lparr>prims = (\<lambda>_. Some 2), calls = [LockCall 1 0]\<rparr>
     = (None, \<lparr>prims = (\<lambda>_. Some 2), calls = [LockCall 1 0]\<rparr>)
   \<and> acquire \<lparr>lock = (\<lambda>t m. Inl Thrown), unlock = (\<lambda>t m. Inr m)\<rparr> 1
        \<lparr>m_mutex = 0, m_locked = False\<rparr> \<lparr>prims = (\<lambda>_. ()), calls = []\<rparr>
     = (Some Thrown, \<lparr>m_mutex = 0, m_locked = False\<rparr>,
        \<lparr>prims = (\<lambda>_. ()), calls = [LockCall 1 0]\<rparr>)
   \<and> m_locked (fst (snd (Lock_ctor Mutex_prim 1 0 True \<lparr>prims = (\<lambda>_. None), calls = []\<rparr>)))
   \<and> (\<exists>m'. lock Mutex_prim 1 (prims \<lparr>prims = (\<lambda>_. None), calls = []\<rparr> 0) = Inr m')"
proof -
  let ?unheld = "\<lparr>m_mutex = 0, m_locked = False\<rparr>"
  let ?w = "\<lparr>prims = (\<lambda>_. Some 2), calls = []\<rparr> :: Mutex world"
  let ?w' = "\<lparr>prims = (\<lambda>_. Some 2), calls = [LockCall 1 0]\<rparr> :: Mutex world"
  let ?free = "\<lparr>prims = (\<lambda>_. None), calls = []\<rparr> :: Mutex world"
  let ?T = "\<lparr>lock = (\<lambda>t m. Inl Thrown), unlock = (\<lambda>t m. Inr m)\<rparr> :: unit Mutex_ops"
  let ?u = "\<lparr>prims = (\<lambda>_. ()), calls = []\<rparr> :: unit world"
  have b: "lock Mutex_prim 1 (prims ?w 0) = Inl Blocked"
    and b': "lock Mutex_prim 1 (prims ?w (m_mutex ?unheld)) = Inl Blocked"
    and n: "\<not> m_locked ?unheld"
    by (simp_all add: Mutex_lock_def)
  note inst = failed_lock_leaves_guard_unchanged [where M = Mutex_prim and t = 1 and m = 0 and w = ?w and f = Blocked
    and f' = Blocked and g = ?unheld and w' = ?w']
  from b inst have "Lock_ctor Mutex_prim 1 0 True ?w =
      (Some Blocked, \<lparr>m_mutex = 0, m_locked = False\<rparr>, ?w\<lparr>calls := calls ?w @ [LockCall 1 0]\<rparr>)"
    by blast
  then have ctor_blocked: "Lock_ctor Mutex_prim 1 0 True ?w = (Some Blocked, ?unheld, ?w')" by simp
  from b' inst have "acquire Mutex_prim 1 ?unheld ?w =
      (Some Blocked, ?unheld, ?w\<lparr>calls := calls ?w @ [LockCall 1 (m_mutex ?unheld)]\<rparr>)"
    by blast
  then have acquire_blocked: "acquire Mutex_prim 1 ?unheld ?w = (Some Blocked, ?unheld, ?w')" by simp
  from b' n inst have dtor_idle: "Lock_dtor Mutex_prim 1 ?unheld ?w' = (None, ?w')" by blast
  have t: "lock ?T 1 (prims ?u (m_mutex ?unheld)) = Inl Thrown" by simp
  from t failed_lock_leaves_guard_unchanged [where M = ?T and t = 1 and g = ?unheld and w = ?u and f' = Thrown]
  have "acquire ?T 1 ?unheld ?u =
      (Some Thrown, ?unheld, ?u\<lparr>calls := calls ?u @ [LockCall 1 (m_mutex ?unheld)]\<rparr>)"
    by blast
  then have acquire_thrown: "acquire ?T 1 ?unheld ?u =
      (Some Thrown, ?unheld, \<lparr>prims = (\<lambda>_. ()), calls = [LockCall 1 0]\<rparr>)"
    by simp
  have flag_set: "m_locked (fst (snd (Lock_ctor Mutex_prim 1 0 True ?free)))"
    by (simp add: Lock_ctor_def call_lock_def Mutex_lock_def)
  with failed_lock_leaves_guard_unchanged [where M = Mutex_prim and t = 1 and m = 0 and w = ?free]
  have lock_returned: "\<exists>m'. lock Mutex_prim 1 (prims ?free 0) = Inr m'" by blast
  show ?thesis by (intro conjI) (rule ctor_blocked acquire_blocked dtor_idle acquire_thrown flag_set lock_returned)+
qed

subsection \<open>The two-state machine\<close>

lemma guard_state_of_Held [simp]: "guard_state_of g = Held \<longleftrightarrow> m_locked g"
  by (simp add: guard_state_of_def)

lemma guard_state_of_Unheld [simp]: "guard_state_of g = Unheld \<longleftrightarrow> \<not> m_locked g"
  by (simp add: guard_state_of_def)

lemma new_calls_same [simp]: "new_calls w w = []"
  by (simp add: new_calls_def)

lemma new_calls_one [simp]:
  "new_calls w (w\<lparr>calls := calls w @ [c], prims := q\<rparr>) = [c]"
  "new_calls w (w\<lparr>calls := calls w @ [c]\<rparr>) = [c]"
  by (simp_all add: new_calls_def)

lemma program_same_world [simp]: "p\<lparr>p_world := p_world p\<rparr> = p"
  by simp

text \<open>What each operation does on the specification's primitive.\<close>

lemma perform_Construct_deferred:
  "perform M i (Construct t m False) p =
     (None, p\<lparr>p_guards := (p_guards p)(i := Some (t, \<lparr>m_mutex = m, m_locked = False\<rparr>))\<rparr>)"
  by (simp add: perform_def Lock_ctor_def)

lemma perform_Construct_free:
  assumes "prims (p_world p) m = None"
  shows "perform Mutex_prim i (Construct t m True) p =
     (None, p\<lparr>p_world := (p_world p)\<lparr>calls := calls (p_world p) @ [LockCall t m],
                 prims := (prims (p_world p))(m := Some t)\<rparr>,
              p_guards := (p_guards p)(i := Some (t, \<lparr>m_mutex = m, m_locked = True\<rparr>)),
              p_owner := (p_owner p)(m := Some i)\<rparr>)"
proof -
  from assms have "lock Mutex_prim t (prims (p_world p) m) = Inr (Some t)"
    by (simp add: Mutex_lock_free)
  from Lock_ctor_auto_returns [OF this] show ?thesis
    by (simp add: perform_def)
qed

lemma perform_Construct_held:
  assumes "prims (p_world p) m = Some u"
  shows "perform Mutex_prim i (Construct t m True) p =
     (Some (if t = u then Undefined else Blocked),
      p\<lparr>p_world := (p_world p)\<lparr>calls := calls (p_world p) @ [LockCall t m]\<rparr>\<rparr>)"
proof -
  from assms
  have "lock Mutex_prim t (prims (p_world p) m) = Inl (if t = u then Undefined else Blocked)"
    by (simp add: Mutex_lock_held)
  from Lock_ctor_auto_fails [OF this] show ?thesis
    by (simp add: perform_def)
qed

lemma perform_Acquire_free:
  assumes "p_guards p i = Some (t, g)" and "prims (p_world p) (m_mutex g) = None"
  shows "perform Mutex_prim i (Use AcquireCall) p =
     (None, p\<lparr>p_world := (p_world p)\<lparr>calls := calls (p_world p) @ [LockCall t (m_mutex g)],
                 prims := (prims (p_world p))(m_mutex g := Some t)\<rparr>,
              p_guards := (p_guards p)(i := Some (t, g\<lparr>m_locked := True\<rparr>)),
              p_owner := (p_owner p)(m_mutex g := Some i)\<rparr>)"
proof -
  from assms(2) have "lock Mutex_prim t (prims (p_world p) (m_mutex g)) = Inr (Some t)"
    by (simp add: Mutex_lock_free)
  from acquire_returns [OF this] assms(1) show ?thesis
    by (simp add: perform_def)
qed

lemma perform_Acquire_held:
  assumes "p_guards p i = Some (t, g)" and "prims (p_world p) (m_mutex g) = Some u"
  shows "perform Mutex_prim i (Use AcquireCall) p =
     (Some (if t = u then Undefined else Blocked),
      p\<lparr>p_world := (p_world p)\<lparr>calls := calls (p_world p) @ [LockCall t (m_mutex g)]\<rparr>\<rparr>)"
proof -
  from assms(2)
  have "lock Mutex_prim t (prims (p_world p) (m_mutex g)) =
      Inl (if t = u then Undefined else Blocked)"
    by (simp add: Mutex_lock_held)
  from acquire_fails [OF this] assms(1) show ?thesis
    by (simp add: perform_def)
qed

lemma perform_Release_mine:
  assumes "p_guards p i = Some (t, g)" and "prims (p_world p) (m_mutex g) = Some t"
  shows "perform Mutex_prim i (Use ReleaseCall) p =
     (None, p\<lparr>p_world := (p_world p)\<lparr>calls := calls (p_world p) @ [UnlockCall t (m_mutex g)],
                 prims := (prims (p_world p))(m_mutex g := None)\<rparr>,
              p_guards := (p_guards p)(i := Some (t, g\<lparr>m_locked := False\<rparr>)),
              p_owner := (p_owner p)(m_mutex g := None)\<rparr>)"
proof -
  from assms(2) have "unlock Mutex_prim t (prims (p_world p) (m_mutex g)) = Inr None"
    by (simp add: Mutex_unlock_returns_iff)
  from release_returns [OF this] assms(1) show ?thesis
    by (simp add: perform_def)
qed

lemma perform_Release_other:
  assumes "p_guards p i = Some (t, g)" and "prims (p_world p) (m_mutex g) \<noteq> Some t"
  shows "perform Mutex_prim i (Use ReleaseCall) p =
     (Some Undefined,
      p\<lparr>p_world := (p_world p)\<lparr>calls := calls (p_world p) @ [UnlockCall t (m_mutex g)]\<rparr>\<rparr>)"
proof -
  from assms(2) have "unlock Mutex_prim t (prims (p_world p) (m_mutex g)) = Inl Undefined"
    by (simp add: Mutex_unlock_other)
  from release_fails [OF this] assms(1) show ?thesis
    by (simp add: perform_def)
qed

lemma perform_Exit_held:
  assumes "p_guards p i = Some (t, g)" and "m_locked g"
    and "prims (p_world p) (m_mutex g) = Some t"
  shows "perform Mutex_prim i (Use ScopeExit) p =
     (None, p\<lparr>p_world := (p_world p)\<lparr>calls := calls (p_world p) @ [UnlockCall t (m_mutex g)],
                 prims := (prims (p_world p))(m_mutex g := None)\<rparr>,
              p_guards := (p_guards p)(i := None),
              p_owner := (p_owner p)(m_mutex g := None)\<rparr>)"
proof -
  from assms(3) have "unlock Mutex_prim t (prims (p_world p) (m_mutex g)) = Inr None"
    by (simp add: Mutex_unlock_returns_iff)
  from call_unlock_returns [OF this] assms(1,2) show ?thesis
    by (simp add: perform_def Lock_dtor_def)
qed

lemma perform_Exit_held_other:
  assumes "p_guards p i = Some (t, g)" and "m_locked g"
    and "prims (p_world p) (m_mutex g) \<noteq> Some t"
  shows "perform Mutex_prim i (Use ScopeExit) p =
     (Some Undefined,
      p\<lparr>p_world := (p_world p)\<lparr>calls := calls (p_world p) @ [UnlockCall t (m_mutex g)]\<rparr>\<rparr>)"
proof -
  from assms(3) have "unlock Mutex_prim t (prims (p_world p) (m_mutex g)) = Inl Undefined"
    by (simp add: Mutex_unlock_other)
  from call_unlock_fails [OF this] assms(1,2) show ?thesis
    by (simp add: perform_def Lock_dtor_def)
qed

lemma perform_Exit_unheld:
  assumes "p_guards p i = Some (t, g)" and "\<not> m_locked g"
  shows "perform M i (Use ScopeExit) p = (None, p\<lparr>p_guards := (p_guards p)(i := None)\<rparr>)"
  using assms by (simp add: perform_def Lock_dtor_def)

lemma perform_Use_dead:
  "p_guards p i = None \<Longrightarrow> perform M i (Use e) p = (Some Undefined, p)"
  by (simp add: perform_def)

text \<open>The invariant, and the state changes that keep it.\<close>

lemma guards_consistentD:
  assumes "guards_consistent p"
  shows "p_guards p i = Some (t, g) \<Longrightarrow> m_locked g \<longleftrightarrow> p_owner p (m_mutex g) = Some i"
    and "p_owner p r = Some i \<Longrightarrow>
         \<exists>t g. p_guards p i = Some (t, g) \<and> m_mutex g = r \<and> prims (p_world p) r = Some t"
    and "p_owner p r = None \<Longrightarrow> prims (p_world p) r = None"
  using assms by (simp_all add: guards_consistent_def)

lemma guards_consistentI:
  assumes "\<And>i t g. p_guards p i = Some (t, g) \<Longrightarrow>
             m_locked g \<longleftrightarrow> p_owner p (m_mutex g) = Some i"
    and "\<And>r i. p_owner p r = Some i \<Longrightarrow>
             \<exists>t g. p_guards p i = Some (t, g) \<and> m_mutex g = r \<and> prims (p_world p) r = Some t"
    and "\<And>r. p_owner p r = None \<Longrightarrow> prims (p_world p) r = None"
  shows "guards_consistent p"
  using assms unfolding guards_consistent_def by blast

lemma free_not_owned:
  assumes "guards_consistent p" and "prims (p_world p) r = None"
  shows "p_owner p r = None"
proof (cases "p_owner p r")
  case (Some i)
  from guards_consistentD(2) [OF assms(1) Some] assms(2) show ?thesis by simp
qed simp

lemma held_flag_holds:
  assumes "guards_consistent p" and "p_guards p i = Some (t, g)" and "m_locked g"
  shows "p_owner p (m_mutex g) = Some i" and "prims (p_world p) (m_mutex g) = Some t"
proof -
  from guards_consistentD(1) [OF assms(1,2)] assms(3)
  show own: "p_owner p (m_mutex g) = Some i" by simp
  from guards_consistentD(2) [OF assms(1) own] assms(2)
  show "prims (p_world p) (m_mutex g) = Some t" by auto
qed

lemma no_guards_consistent: "guards_consistent no_guards"
  by (simp add: guards_consistent_def no_guards_def)

lemma log_only_consistent:
  "guards_consistent (p\<lparr>p_world := (p_world p)\<lparr>calls := cs\<rparr>\<rparr>) = guards_consistent p"
  by (simp add: guards_consistent_def)

lemma construct_deferred_consistent:
  assumes inv: "guards_consistent p" and fresh: "p_guards p i = None"
  shows "guards_consistent
    (p\<lparr>p_guards := (p_guards p)(i := Some (t, \<lparr>m_mutex = m, m_locked = False\<rparr>))\<rparr>)"
    (is "guards_consistent ?p'")
proof (rule guards_consistentI)
  fix j u g assume live: "p_guards ?p' j = Some (u, g)"
  show "m_locked g \<longleftrightarrow> p_owner ?p' (m_mutex g) = Some j"
  proof (cases "j = i")
    case True
    with live have g: "g = \<lparr>m_mutex = m, m_locked = False\<rparr>" by simp
    have "p_owner p m \<noteq> Some i"
    proof
      assume "p_owner p m = Some i"
      from guards_consistentD(2) [OF inv this] fresh show False by simp
    qed
    with g True show ?thesis by simp
  next
    case False
    with live have "p_guards p j = Some (u, g)" by simp
    from guards_consistentD(1) [OF inv this] show ?thesis by simp
  qed
next
  fix r j assume own: "p_owner ?p' r = Some j"
  then have own': "p_owner p r = Some j" by simp
  from guards_consistentD(2) [OF inv own'] fresh have "j \<noteq> i" by auto
  with guards_consistentD(2) [OF inv own']
  show "\<exists>t g. p_guards ?p' j = Some (t, g) \<and> m_mutex g = r \<and> prims (p_world ?p') r = Some t"
    by simp
next
  fix r assume "p_owner ?p' r = None"
  then have "p_owner p r = None" by simp
  from guards_consistentD(3) [OF inv this] show "prims (p_world ?p') r = None" by simp
qed

lemma take_consistent:
  assumes inv: "guards_consistent p"
    and free: "prims (p_world p) m = None"
    and slot: "p_guards p i = None \<or> (\<exists>g. p_guards p i = Some (t, g) \<and> m_mutex g = m)"
  shows "guards_consistent
    (p\<lparr>p_world := (p_world p)\<lparr>calls := cs, prims := (prims (p_world p))(m := Some t)\<rparr>,
       p_guards := (p_guards p)(i := Some (t, \<lparr>m_mutex = m, m_locked = True\<rparr>)),
       p_owner := (p_owner p)(m := Some i)\<rparr>)"
    (is "guards_consistent ?p'")
proof -
  from free_not_owned [OF inv free] have unowned: "p_owner p m = None" .
  have not_elsewhere: "r = m" if "p_owner p r = Some i" for r
  proof -
    from guards_consistentD(2) [OF inv that] slot show ?thesis by auto
  qed
  show ?thesis
  proof (rule guards_consistentI)
    fix j u g assume live: "p_guards ?p' j = Some (u, g)"
    show "m_locked g \<longleftrightarrow> p_owner ?p' (m_mutex g) = Some j"
    proof (cases "j = i")
      case True
      with live have "g = \<lparr>m_mutex = m, m_locked = True\<rparr>" by auto
      with True show ?thesis by simp
    next
      case False
      with live have l: "p_guards p j = Some (u, g)" by simp
      from guards_consistentD(1) [OF inv l] unowned False show ?thesis
        by (cases "m_mutex g = m") simp_all
    qed
  next
    fix r j assume own: "p_owner ?p' r = Some j"
    show "\<exists>t g. p_guards ?p' j = Some (t, g) \<and> m_mutex g = r \<and> prims (p_world ?p') r = Some t"
    proof (cases "r = m")
      case True
      with own show ?thesis by simp
    next
      case False
      with own have own': "p_owner p r = Some j" by simp
      with not_elsewhere [of r] False have "j \<noteq> i" by auto
      with guards_consistentD(2) [OF inv own'] False show ?thesis by simp
    qed
  next
    fix r assume none: "p_owner ?p' r = None"
    then have "r \<noteq> m" by auto
    with none have "p_owner p r = None" by simp
    from guards_consistentD(3) [OF inv this] \<open>r \<noteq> m\<close>
    show "prims (p_world ?p') r = None" by simp
  qed
qed

lemma give_consistent:
  assumes inv: "guards_consistent p"
    and live: "p_guards p i = Some (t, g)" and held: "m_locked g"
    and after: "k = None \<or> k = Some (t, g\<lparr>m_locked := False\<rparr>)"
  shows "guards_consistent
    (p\<lparr>p_world := (p_world p)\<lparr>calls := cs, prims := (prims (p_world p))(m_mutex g := None)\<rparr>,
       p_guards := (p_guards p)(i := k),
       p_owner := (p_owner p)(m_mutex g := None)\<rparr>)"
    (is "guards_consistent ?p'")
proof -
  note mine = held_flag_holds [OF inv live held]
  show ?thesis
  proof (rule guards_consistentI)
    fix j u h assume l': "p_guards ?p' j = Some (u, h)"
    show "m_locked h \<longleftrightarrow> p_owner ?p' (m_mutex h) = Some j"
    proof (cases "j = i")
      case True
      with l' after have "h = g\<lparr>m_locked := False\<rparr>" by auto
      then show ?thesis by simp
    next
      case False
      with l' have l: "p_guards p j = Some (u, h)" by simp
      from guards_consistentD(1) [OF inv l] mine(1) False show ?thesis
        by (cases "m_mutex h = m_mutex g") simp_all
    qed
  next
    fix r j assume own: "p_owner ?p' r = Some j"
    then have r: "r \<noteq> m_mutex g" by auto
    with own have own': "p_owner p r = Some j" by simp
    from guards_consistentD(2) [OF inv own'] live r have "j \<noteq> i" by auto
    with guards_consistentD(2) [OF inv own'] r
    show "\<exists>t g. p_guards ?p' j = Some (t, g) \<and> m_mutex g = r \<and> prims (p_world ?p') r = Some t"
      by simp
  next
    fix r assume none: "p_owner ?p' r = None"
    show "prims (p_world ?p') r = None"
    proof (cases "r = m_mutex g")
      case True
      then show ?thesis by simp
    next
      case False
      with none have "p_owner p r = None" by simp
      from guards_consistentD(3) [OF inv this] False show ?thesis by simp
    qed
  qed
qed

lemma exit_unheld_consistent:
  assumes inv: "guards_consistent p"
    and live: "p_guards p i = Some (t, g)" and unheld: "\<not> m_locked g"
  shows "guards_consistent (p\<lparr>p_guards := (p_guards p)(i := None)\<rparr>)"
    (is "guards_consistent ?p'")
proof (rule guards_consistentI)
  fix j u h assume l': "p_guards ?p' j = Some (u, h)"
  then have "j \<noteq> i" by auto
  with l' have "p_guards p j = Some (u, h)" by simp
  from guards_consistentD(1) [OF inv this]
  show "m_locked h \<longleftrightarrow> p_owner ?p' (m_mutex h) = Some j" by simp
next
  fix r j assume "p_owner ?p' r = Some j"
  then have own: "p_owner p r = Some j" by simp
  have "j \<noteq> i"
  proof
    assume "j = i"
    with guards_consistentD(2) [OF inv own] live have "m_mutex g = r" by auto
    with guards_consistentD(1) [OF inv live] own \<open>j = i\<close> unheld show False by simp
  qed
  with guards_consistentD(2) [OF inv own]
  show "\<exists>t g. p_guards ?p' j = Some (t, g) \<and> m_mutex g = r \<and> prims (p_world ?p') r = Some t"
    by simp
next
  fix r assume "p_owner ?p' r = None"
  then have "p_owner p r = None" by simp
  from guards_consistentD(3) [OF inv this] show "prims (p_world ?p') r = None" by simp
qed

text \<open>Every operation within the contract keeps the invariant and follows the machine.\<close>

lemma Lock_set_flag: "g\<lparr>m_locked := b\<rparr> = \<lparr>m_mutex = m_mutex g, m_locked = b\<rparr>"
  by (cases g) simp

lemma contract_Use:
  assumes "within_contract p i (Use e)"
  obtains t g where "p_guards p i = Some (t, g)"
    and "spec_transition (guard_state_of g) e \<noteq> None"
  using assms by (auto simp: within_contract_def split: option.splits)

lemma spec_transition_cases:
  "spec_transition (guard_state_of g) AcquireCall = Some s \<longleftrightarrow> \<not> m_locked g \<and> s = Held"
  "spec_transition (guard_state_of g) ReleaseCall = Some s \<longleftrightarrow> m_locked g \<and> s = Unheld"
  "spec_transition (guard_state_of g) ScopeExit = Some s \<longleftrightarrow> s = Unheld"
  by (cases "m_locked g"; auto simp: guard_state_of_def)+

lemma perform_consistent:
  assumes inv: "guards_consistent p" and ok: "within_contract p i op"
  shows "guards_consistent (snd (perform Mutex_prim i op p))"
proof (cases op)
  case (Construct t m a)
  with ok have fresh: "p_guards p i = None" by (simp add: within_contract_def)
  show ?thesis
  proof (cases a)
    case False
    with Construct perform_Construct_deferred [of Mutex_prim i t m p]
      construct_deferred_consistent [OF inv fresh, of t m]
    show ?thesis by simp
  next
    case True
    show ?thesis
    proof (cases "prims (p_world p) m")
      case None
      from fresh have "p_guards p i = None \<or> (\<exists>g. p_guards p i = Some (t, g) \<and> m_mutex g = m)"
        by simp
      from take_consistent [OF inv None this] perform_Construct_free [OF None, of i t]
        Construct True
      show ?thesis by simp
    next
      case (Some u)
      from perform_Construct_held [OF Some, of i t] Construct True inv show ?thesis
        by (simp add: log_only_consistent)
    qed
  qed
next
  case (Use e)
  with ok obtain t g where live: "p_guards p i = Some (t, g)"
    and tr: "spec_transition (guard_state_of g) e \<noteq> None"
    by (auto elim: contract_Use)
  show ?thesis
  proof (cases e)
    case AcquireCall
    show ?thesis
    proof (cases "prims (p_world p) (m_mutex g)")
      case None
      from live have "p_guards p i = None \<or>
          (\<exists>h. p_guards p i = Some (t, h) \<and> m_mutex h = m_mutex g)"
        by simp
      from take_consistent [OF inv None this] perform_Acquire_free [OF live None]
        Use AcquireCall
      show ?thesis by (simp add: Lock_set_flag)
    next
      case (Some u)
      from perform_Acquire_held [OF live Some] Use AcquireCall inv show ?thesis
        by (simp add: log_only_consistent)
    qed
  next
    case ReleaseCall
    with tr have held: "m_locked g" by (cases "m_locked g") (simp_all add: guard_state_of_def)
    from held_flag_holds(2) [OF inv live held]
    have mine: "prims (p_world p) (m_mutex g) = Some t" .
    have "Some (t, g\<lparr>m_locked := False\<rparr>) = None \<or>
        Some (t, g\<lparr>m_locked := False\<rparr>) = Some (t, g\<lparr>m_locked := False\<rparr>)"
      by simp
    from give_consistent [OF inv live held this] perform_Release_mine [OF live mine]
      Use ReleaseCall
    show ?thesis by simp
  next
    case ScopeExit
    show ?thesis
    proof (cases "m_locked g")
      case True
      from held_flag_holds(2) [OF inv live True]
      have mine: "prims (p_world p) (m_mutex g) = Some t" .
      have "None = None \<or> None = Some (t, g\<lparr>m_locked := False\<rparr>)" by simp
      from give_consistent [OF inv live True this] perform_Exit_held [OF live True mine]
        Use ScopeExit
      show ?thesis by simp
    next
      case False
      from exit_unheld_consistent [OF inv live False]
        perform_Exit_unheld [OF live False, of Mutex_prim] Use ScopeExit
      show ?thesis by simp
    qed
  qed
qed

lemma run_ops_consistent:
  "guards_consistent p \<Longrightarrow> keeps_contract Mutex_prim ops p \<Longrightarrow>
   guards_consistent (run_ops Mutex_prim ops p)"
proof (induction ops arbitrary: p)
  case Nil
  then show ?case by simp
next
  case (Cons x ops)
  obtain i op where x: "x = (i, op)" by (cases x)
  from Cons.prems x have ok: "within_contract p i op"
    and rest: "keeps_contract Mutex_prim ops (snd (perform Mutex_prim i op p))"
    by simp_all
  from Cons.IH [OF perform_consistent [OF Cons.prems(1) ok] rest] x show ?case by simp
qed

lemma use_refines:
  assumes inv: "guards_consistent p" and live: "p_guards p i = Some (t, g)"
    and tr: "spec_transition (guard_state_of g) e = Some s"
    and ret: "perform Mutex_prim i (Use e) p = (None, p')"
  shows "(p_owner p' (m_mutex g) = Some i \<longleftrightarrow> s = Held) \<and>
         p_guards p' i = (if e = ScopeExit then None else Some (t, g\<lparr>m_locked := (s = Held)\<rparr>))"
proof (cases e)
  case AcquireCall
  with tr have s: "s = Held" by (simp add: spec_transition_cases)
  have free: "prims (p_world p) (m_mutex g) = None"
  proof (cases "prims (p_world p) (m_mutex g)")
    case (Some u)
    from perform_Acquire_held [OF live Some] ret AcquireCall show ?thesis by simp
  qed simp
  from perform_Acquire_free [OF live free] ret AcquireCall s show ?thesis by auto
next
  case ReleaseCall
  with tr have s: "s = Unheld" and held: "m_locked g" by (simp_all add: spec_transition_cases)
  from held_flag_holds(2) [OF inv live held]
  have mine: "prims (p_world p) (m_mutex g) = Some t" .
  from perform_Release_mine [OF live mine] ret ReleaseCall s show ?thesis by auto
next
  case ScopeExit
  with tr have s: "s = Unheld" by (simp add: spec_transition_cases)
  show ?thesis
  proof (cases "m_locked g")
    case True
    from held_flag_holds(2) [OF inv live True]
    have mine: "prims (p_world p) (m_mutex g) = Some t" .
    from perform_Exit_held [OF live True mine] ret ScopeExit s show ?thesis by auto
  next
    case False
    from guards_consistentD(1) [OF inv live] False
    have "p_owner p (m_mutex g) \<noteq> Some i" by simp
    with perform_Exit_unheld [OF live False, of Mutex_prim] ret ScopeExit s show ?thesis
      by auto
  qed
qed

lemma construct_refines:
  assumes inv: "guards_consistent p" and fresh: "p_guards p i = None"
    and ret: "perform Mutex_prim i (Construct t m a) p = (None, p')"
  shows "p_guards p' i = Some (t, \<lparr>m_mutex = m, m_locked = a\<rparr>) \<and>
         guard_state_of \<lparr>m_mutex = m, m_locked = a\<rparr> = spec_initial a \<and>
         (p_owner p' m = Some i \<longleftrightarrow> a)"
proof (cases a)
  case False
  have "p_owner p m \<noteq> Some i"
  proof
    assume "p_owner p m = Some i"
    from guards_consistentD(2) [OF inv this] fresh show False by simp
  qed
  with perform_Construct_deferred [of Mutex_prim i t m p] ret False show ?thesis
    by (auto simp: spec_initial_def guard_state_of_def)
next
  case True
  have free: "prims (p_world p) m = None"
  proof (cases "prims (p_world p) m")
    case (Some u)
    from perform_Construct_held [OF Some, of i t] ret True show ?thesis by simp
  qed simp
  from perform_Construct_free [OF free, of i t] ret True show ?thesis
    by (auto simp: spec_initial_def guard_state_of_def)
qed

lemma held_use_returns:
  assumes inv: "guards_consistent p" and live: "p_guards p i = Some (t, g)"
    and held: "m_locked g" and e: "e \<noteq> AcquireCall"
  shows "fst (perform Mutex_prim i (Use e) p) = None"
proof -
  from held_flag_holds(2) [OF inv live held]
  have mine: "prims (p_world p) (m_mutex g) = Some t" .
  from e perform_Release_mine [OF live mine] perform_Exit_held [OF live held mine]
  show ?thesis by (cases e) simp_all
qed

lemma acquire_returns_iff:
  assumes live: "p_guards p i = Some (t, g)"
  shows "fst (perform Mutex_prim i (Use AcquireCall) p) = None \<longleftrightarrow>
         prims (p_world p) (m_mutex g) = None"
proof (cases "prims (p_world p) (m_mutex g)")
  case None
  from perform_Acquire_free [OF live None] None show ?thesis by simp
next
  case (Some u)
  from perform_Acquire_held [OF live Some] Some show ?thesis by simp
qed

lemma construct_returns_iff:
  "fst (perform Mutex_prim i (Construct t m a) p) = None \<longleftrightarrow>
   (\<not> a \<or> prims (p_world p) m = None)"
proof (cases a)
  case False
  with perform_Construct_deferred [of Mutex_prim i t m p] show ?thesis by simp
next
  case True
  show ?thesis
  proof (cases "prims (p_world p) m")
    case None
    from perform_Construct_free [OF None, of i t] None True show ?thesis by simp
  next
    case (Some u)
    from perform_Construct_held [OF Some, of i t] Some True show ?thesis by simp
  qed
qed

lemma perform_fails_keeps:
  assumes "perform M i op p = (Some f, p')"
  shows "p_guards p' = p_guards p \<and> p_owner p' = p_owner p \<and>
         prims (p_world p') = prims (p_world p)"
proof (cases op)
  case (Construct t m a)
  show ?thesis
  proof (cases a)
    case False
    with Construct assms perform_Construct_deferred [of M i t m p] show ?thesis by simp
  next
    case True
    show ?thesis
    proof (cases "lock M t (prims (p_world p) m)")
      case (Inl f')
      from Lock_ctor_auto_fails [OF Inl] assms Construct True show ?thesis
        by (auto simp: perform_def)
    next
      case (Inr m')
      from Lock_ctor_auto_returns [OF Inr] assms Construct True show ?thesis
        by (simp add: perform_def)
    qed
  qed
next
  case (Use e)
  show ?thesis
  proof (cases "p_guards p i")
    case None
    with assms Use show ?thesis by (simp add: perform_Use_dead)
  next
    case (Some tg)
    obtain t g where tg: "tg = (t, g)" by (cases tg)
    show ?thesis
    proof (cases e)
      case AcquireCall
      show ?thesis
      proof (cases "lock M t (prims (p_world p) (m_mutex g))")
        case (Inl f')
        from acquire_fails [OF Inl] assms Use Some tg AcquireCall show ?thesis
          by (auto simp: perform_def)
      next
        case (Inr m')
        from acquire_returns [OF Inr] assms Use Some tg AcquireCall show ?thesis
          by (simp add: perform_def)
      qed
    next
      case ReleaseCall
      show ?thesis
      proof (cases "unlock M t (prims (p_world p) (m_mutex g))")
        case (Inl f')
        from release_fails [OF Inl] assms Use Some tg ReleaseCall show ?thesis
          by (auto simp: perform_def)
      next
        case (Inr m')
        from release_returns [OF Inr] assms Use Some tg ReleaseCall show ?thesis
          by (simp add: perform_def)
      qed
    next
      case ScopeExit
      show ?thesis
      proof (cases "m_locked g")
        case False
        from perform_Exit_unheld [OF _ False, of p i t M] assms Use Some tg ScopeExit
        show ?thesis by simp
      next
        case True
        show ?thesis
        proof (cases "unlock M t (prims (p_world p) (m_mutex g))")
          case (Inl f')
          from call_unlock_fails [OF Inl] assms Use Some tg ScopeExit True show ?thesis
            by (auto simp: perform_def Lock_dtor_def)
        next
          case (Inr m')
          from call_unlock_returns [OF Inr] assms Use Some tg ScopeExit True show ?thesis
            by (simp add: perform_def Lock_dtor_def)
        qed
      qed
    qed
  qed
qed

text \<open>
  Claim C4.  In a program that uses its guards within the caller contract, any number of
  guards of any threads on any primitives, the flag of every guard is set if and only if
  that guard owns its primitive's exclusive access, and then the primitive is held by
  the guard's thread; two guards on one primitive never both have the flag set.  This
  holds when no guard exists yet and is kept by every operation, whether it returns or
  not, so it holds along every run.  The guards follow the specification's machine:
  construction that returns starts a guard in \<open>Held\<close> (owning the primitive) if
  auto-acquire was requested and in \<open>Unheld\<close> otherwise; \<open>acquire ()\<close> leads from
  \<open>Unheld\<close> to \<open>Held\<close>, \<open>release ()\<close> from \<open>Held\<close> to \<open>Unheld\<close>, and scope exit from
  \<open>Held\<close> ends the guard with the primitive given up; scope exit in \<open>Unheld\<close> ends
  the guard and changes nothing else.  From \<open>Held\<close>, \<open>release ()\<close> and scope exit
  always return; \<open>acquire ()\<close> and auto-locking construction return exactly when the
  primitive is free; an operation that does not return leaves guards, ownership and
  primitives as they were.
\<close>

theorem guard_follows_state_machine:
  "guards_consistent no_guards
   \<and> (guards_consistent p \<and> within_contract p i op \<longrightarrow>
        guards_consistent (snd (perform Mutex_prim i op p)))
   \<and> (guards_consistent p \<and> keeps_contract Mutex_prim ops p \<longrightarrow>
        guards_consistent (run_ops Mutex_prim ops p))
   \<and> (guards_consistent p \<and> p_guards p i = Some (t, g) \<longrightarrow>
        (m_locked g \<longleftrightarrow> p_owner p (m_mutex g) = Some i) \<and>
        (m_locked g \<longrightarrow> prims (p_world p) (m_mutex g) = Some t))
   \<and> (guards_consistent p \<and> p_guards p i = Some (t, g) \<and> p_guards p j = Some (u, h) \<and>
        m_mutex g = m_mutex h \<and> m_locked g \<and> m_locked h \<longrightarrow> i = j)
   \<and> (guards_consistent p \<and> p_guards p i = None \<and>
        perform Mutex_prim i (Construct t m a) p = (None, p') \<longrightarrow>
        p_guards p' i = Some (t, \<lparr>m_mutex = m, m_locked = a\<rparr>) \<and>
        guard_state_of \<lparr>m_mutex = m, m_locked = a\<rparr> = spec_initial a \<and>
        (p_owner p' m = Some i \<longleftrightarrow> a))
   \<and> (guards_consistent p \<and> p_guards p i = Some (t, g) \<and>
        spec_transition (guard_state_of g) e = Some s \<and>
        perform Mutex_prim i (Use e) p = (None, p') \<longrightarrow>
        (p_owner p' (m_mutex g) = Some i \<longleftrightarrow> s = Held) \<and>
        p_guards p' i =
          (if e = ScopeExit then None else Some (t, g\<lparr>m_locked := (s = Held)\<rparr>)))
   \<and> (guards_consistent p \<and> p_guards p i = Some (t, g) \<and> m_locked g \<and> e \<noteq> AcquireCall \<longrightarrow>
        fst (perform Mutex_prim i (Use e) p) = None)
   \<and> (p_guards p i = Some (t, g) \<and> \<not> m_locked g \<longrightarrow>
        perform Mutex_prim i (Use ScopeExit) p =
          (None, p\<lparr>p_guards := (p_guards p)(i := None)\<rparr>))
   \<and> (p_guards p i = Some (t, g) \<longrightarrow>
        (fst (perform Mutex_prim i (Use AcquireCall) p) = None \<longleftrightarrow>
         prims (p_world p) (m_mutex g) = None))
   \<and> (fst (perform Mutex_prim i (Construct t m a) p) = None \<longleftrightarrow>
        (a \<longrightarrow> prims (p_world p) m = None))
   \<and> (perform Mutex_prim i op p = (Some f, p') \<longrightarrow>
        p_guards p' = p_guards p \<and> p_owner p' = p_owner p \<and>
        prims (p_world p') = prims (p_world p))"
proof (intro conjI impI)
  show "guards_consistent no_guards" by (rule no_guards_consistent)
next
  assume "guards_consistent p \<and> within_contract p i op"
  then show "guards_consistent (snd (perform Mutex_prim i op p))"
    using perform_consistent [of p i op] by simp
next
  assume "guards_consistent p \<and> keeps_contract Mutex_prim ops p"
  then show "guards_consistent (run_ops Mutex_prim ops p)"
    using run_ops_consistent [of p ops] by simp
next
  assume h: "guards_consistent p \<and> p_guards p i = Some (t, g)"
  then show "m_locked g \<longleftrightarrow> p_owner p (m_mutex g) = Some i"
    using guards_consistentD(1) [of p i t g] by simp
  assume "m_locked g"
  with h show "prims (p_world p) (m_mutex g) = Some t"
    using held_flag_holds(2) [of p i t g] by simp
next
  assume h: "guards_consistent p \<and> p_guards p i = Some (t, g) \<and> p_guards p j = Some (u, h) \<and>
        m_mutex g = m_mutex h \<and> m_locked g \<and> m_locked h"
  then have inv: "guards_consistent p" and gi: "p_guards p i = Some (t, g)"
    and gj: "p_guards p j = Some (u, h)" and same: "m_mutex g = m_mutex h"
    and fi: "m_locked g" and fj: "m_locked h"
    by simp_all
  from held_flag_holds(1) [OF inv gi fi] held_flag_holds(1) [OF inv gj fj] same
  show "i = j" by simp
next
  assume h: "guards_consistent p \<and> p_guards p i = None \<and>
        perform Mutex_prim i (Construct t m a) p = (None, p')"
  then show "p_guards p' i = Some (t, \<lparr>m_mutex = m, m_locked = a\<rparr>)"
    and "guard_state_of \<lparr>m_mutex = m, m_locked = a\<rparr> = spec_initial a"
    and "p_owner p' m = Some i \<longleftrightarrow> a"
    using construct_refines [of p i t m a p'] by simp_all
next
  assume h: "guards_consistent p \<and> p_guards p i = Some (t, g) \<and>
        spec_transition (guard_state_of g) e = Some s \<and>
        perform Mutex_prim i (Use e) p = (None, p')"
  then show "p_owner p' (m_mutex g) = Some i \<longleftrightarrow> s = Held"
    and "p_guards p' i =
          (if e = ScopeExit then None else Some (t, g\<lparr>m_locked := (s = Held)\<rparr>))"
    using use_refines [of p i t g e s p'] by simp_all
next
  assume "guards_consistent p \<and> p_guards p i = Some (t, g) \<and> m_locked g \<and> e \<noteq> AcquireCall"
  then show "fst (perform Mutex_prim i (Use e) p) = None"
    using held_use_returns [of p i t g e] by simp
next
  assume "p_guards p i = Some (t, g) \<and> \<not> m_locked g"
  then show "perform Mutex_prim i (Use ScopeExit) p =
          (None, p\<lparr>p_guards := (p_guards p)(i := None)\<rparr>)"
    using perform_Exit_unheld [of p i t g Mutex_prim] by simp
next
  assume "p_guards p i = Some (t, g)"
  then show "fst (perform Mutex_prim i (Use AcquireCall) p) = None \<longleftrightarrow>
         prims (p_world p) (m_mutex g) = None"
    by (rule acquire_returns_iff)
next
  show "fst (perform Mutex_prim i (Construct t m a) p) = None \<longleftrightarrow>
        (a \<longrightarrow> prims (p_world p) m = None)"
    using construct_returns_iff [of i t m a p] by auto
next
  assume "perform Mutex_prim i op p = (Some f, p')"
  then show "p_guards p' = p_guards p" and "p_owner p' = p_owner p"
    and "prims (p_world p') = prims (p_world p)"
    using perform_fails_keeps [of Mutex_prim i op p f p'] by simp_all
qed

theorem guard_follows_state_machine_witness:
  "keeps_contract Mutex_prim
     [(0, Construct 5 0 True), (1, Construct 5 0 False), (0, Use ReleaseCall), (1, Use AcquireCall)]
     no_guards
   \<and> guards_consistent (run_ops Mutex_prim
        [(0, Construct 5 0 True), (1, Construct 5 0 False), (0, Use ReleaseCall),
         (1, Use AcquireCall)] no_guards)
   \<and> p_guards (run_ops Mutex_prim
        [(0, Construct 5 0 True), (1, Construct 5 0 False), (0, Use ReleaseCall),
         (1, Use AcquireCall)] no_guards) 0 = Some (5, \<lparr>m_mutex = 0, m_locked = False\<rparr>)
   \<and> p_guards (run_ops Mutex_prim
        [(0, Construct 5 0 True), (1, Construct 5 0 False), (0, Use ReleaseCall),
         (1, Use AcquireCall)] no_guards) 1 = Some (5, \<lparr>m_mutex = 0, m_locked = True\<rparr>)
   \<and> p_owner (run_ops Mutex_prim
        [(0, Construct 5 0 True), (1, Construct 5 0 False), (0, Use ReleaseCall),
         (1, Use AcquireCall)] no_guards) 0 = Some 1
   \<and> prims (p_world (run_ops Mutex_prim
        [(0, Construct 5 0 True), (1, Construct 5 0 False), (0, Use ReleaseCall),
         (1, Use AcquireCall)] no_guards)) 0 = Some 5
   \<and> guards_consistent (snd (perform Mutex_prim 0 (Construct 5 0 True) no_guards))
   \<and> p_guards (snd (perform Mutex_prim 0 (Construct 5 0 True) no_guards)) 0
       = Some (5, \<lparr>m_mutex = 0, m_locked = True\<rparr>)
   \<and> p_owner (snd (perform Mutex_prim 0 (Construct 5 0 True) no_guards)) 0 = Some 0
   \<and> p_guards (snd (perform Mutex_prim 0 (Use ReleaseCall)
        (run_ops Mutex_prim [(0, Construct 5 0 True), (1, Construct 5 0 False)] no_guards))) 0
       = Some (5, \<lparr>m_mutex = 0, m_locked = False\<rparr>)
   \<and> p_owner (snd (perform Mutex_prim 0 (Use ReleaseCall)
        (run_ops Mutex_prim [(0, Construct 5 0 True), (1, Construct 5 0 False)] no_guards))) 0
       \<noteq> Some 0
   \<and> fst (perform Mutex_prim 0 (Use ScopeExit)
        (run_ops Mutex_prim [(0, Construct 5 0 True), (1, Construct 5 0 False)] no_guards)) = None
   \<and> fst (perform Mutex_prim 1 (Use ScopeExit)
        (run_ops Mutex_prim [(0, Construct 5 0 True), (1, Construct 5 0 False)] no_guards)) = None
   \<and> fst (perform Mutex_prim 1 (Use AcquireCall)
        (run_ops Mutex_prim [(0, Construct 5 0 True), (1, Construct 5 0 False)] no_guards)) \<noteq> None
   \<and> p_guards (snd (perform Mutex_prim 2 (Construct 6 0 True)
        (run_ops Mutex_prim [(0, Construct 5 0 True), (1, Construct 5 0 False)] no_guards)))
       = p_guards (run_ops Mutex_prim [(0, Construct 5 0 True), (1, Construct 5 0 False)] no_guards)"
proof -
  let ?held = "\<lparr>m_mutex = 0, m_locked = True\<rparr>"
  let ?unheld = "\<lparr>m_mutex = 0, m_locked = False\<rparr>"
  let ?two = "[(0, Construct 5 0 True), (1, Construct 5 0 False)] :: (gid \<times> guard_op) list"
  let ?ops = "[(0, Construct 5 0 True), (1, Construct 5 0 False), (0, Use ReleaseCall),
    (1, Use AcquireCall)] :: (gid \<times> guard_op) list"
  let ?p1 = "snd (perform Mutex_prim 0 (Construct 5 0 True) no_guards)"
  let ?p2 = "run_ops Mutex_prim ?two no_guards"
  let ?p3 = "snd (perform Mutex_prim 0 (Use ReleaseCall) ?p2)"
  let ?p4 = "run_ops Mutex_prim ?ops no_guards"
  note start = guard_follows_state_machine [THEN conjunct1]
  note preserved = guard_follows_state_machine [THEN conjunct2, THEN conjunct1, rule_format]
  note along_run = guard_follows_state_machine [THEN conjunct2, THEN conjunct2, THEN conjunct1, rule_format]
  note flag_iff = guard_follows_state_machine [THEN conjunct2, THEN conjunct2, THEN conjunct2, THEN conjunct1, rule_format]
  note constructed = guard_follows_state_machine [THEN conjunct2, THEN conjunct2, THEN conjunct2, THEN conjunct2, THEN conjunct2, THEN conjunct1, rule_format]
  note used = guard_follows_state_machine [THEN conjunct2, THEN conjunct2, THEN conjunct2, THEN conjunct2, THEN conjunct2, THEN conjunct2, THEN conjunct1, rule_format]
  note held_returns = guard_follows_state_machine [THEN conjunct2, THEN conjunct2, THEN conjunct2, THEN conjunct2, THEN conjunct2, THEN conjunct2, THEN conjunct2, THEN conjunct1, rule_format]
  note unheld_exit = guard_follows_state_machine [THEN conjunct2, THEN conjunct2, THEN conjunct2, THEN conjunct2, THEN conjunct2, THEN conjunct2, THEN conjunct2, THEN conjunct2, THEN conjunct1, rule_format]
  note acquire_iff = guard_follows_state_machine [THEN conjunct2, THEN conjunct2, THEN conjunct2, THEN conjunct2, THEN conjunct2, THEN conjunct2, THEN conjunct2, THEN conjunct2, THEN conjunct2, THEN conjunct1, rule_format]
  note failed_keeps = guard_follows_state_machine [THEN conjunct2, THEN conjunct2, THEN conjunct2, THEN conjunct2, THEN conjunct2, THEN conjunct2, THEN conjunct2, THEN conjunct2, THEN conjunct2, THEN conjunct2, THEN conjunct2, rule_format]
  have fresh: "p_guards no_guards 0 = None" by (simp add: no_guards_def)
  have ok1: "within_contract no_guards 0 (Construct 5 0 True)"
    by (simp add: within_contract_def no_guards_def)
  from start ok1 have inv1: "guards_consistent ?p1" by (intro preserved) simp
  have k2: "keeps_contract Mutex_prim ?two no_guards" by code_simp
  have k4: "keeps_contract Mutex_prim ?ops no_guards" by code_simp
  from start k2 have inv2: "guards_consistent ?p2" by (intro along_run) simp
  from start k4 have inv4: "guards_consistent ?p4" by (intro along_run) simp
  have a4: "p_guards ?p4 0 = Some (5, ?unheld)" by code_simp
  have b4: "p_guards ?p4 1 = Some (5, ?held)" by code_simp
  from inv4 b4 have f4: "guards_consistent ?p4 \<and> p_guards ?p4 1 = Some (5, ?held)" by simp
  from flag_iff [OF f4]
  have own4: "p_owner ?p4 0 = Some 1" and prim4: "prims (p_world ?p4) 0 = Some 5"
    by simp_all
  have r1: "perform Mutex_prim 0 (Construct 5 0 True) no_guards = (None, ?p1)"
    by (simp add: perform_Construct_free no_guards_def)
  from start fresh r1
  have built: "guards_consistent no_guards \<and> p_guards no_guards 0 = None \<and>
      perform Mutex_prim 0 (Construct 5 0 True) no_guards = (None, ?p1)"
    by simp
  from constructed [OF built]
  have g1: "p_guards ?p1 0 = Some (5, ?held)" and own1: "p_owner ?p1 0 = Some 0"
    by simp_all
  have a2: "p_guards ?p2 0 = Some (5, ?held)" by code_simp
  have b2: "p_guards ?p2 1 = Some (5, ?unheld)" by code_simp
  have tr: "spec_transition (guard_state_of ?held) ReleaseCall = Some Unheld"
    by (simp add: guard_state_of_def)
  from inv2 a2
  have h2: "guards_consistent ?p2 \<and> p_guards ?p2 0 = Some (5, ?held) \<and> m_locked ?held \<and>
      ReleaseCall \<noteq> AcquireCall"
    and h2': "guards_consistent ?p2 \<and> p_guards ?p2 0 = Some (5, ?held) \<and> m_locked ?held \<and>
      ScopeExit \<noteq> AcquireCall"
    by simp_all
  from held_returns [OF h2]
  have r3: "perform Mutex_prim 0 (Use ReleaseCall) ?p2 = (None, ?p3)"
    by (simp add: prod_eq_iff)
  from inv2 a2 tr r3
  have u3: "guards_consistent ?p2 \<and> p_guards ?p2 0 = Some (5, ?held) \<and>
      spec_transition (guard_state_of ?held) ReleaseCall = Some Unheld \<and>
      perform Mutex_prim 0 (Use ReleaseCall) ?p2 = (None, ?p3)"
    by simp
  from used [OF u3]
  have g3: "p_guards ?p3 0 = Some (5, ?unheld)" and own3: "p_owner ?p3 0 \<noteq> Some 0"
    by simp_all
  from held_returns [OF h2']
  have x0: "fst (perform Mutex_prim 0 (Use ScopeExit) ?p2) = None" .
  from b2 have n2: "p_guards ?p2 1 = Some (5, ?unheld) \<and> \<not> m_locked ?unheld" by simp
  from unheld_exit [OF n2]
  have x1: "fst (perform Mutex_prim 1 (Use ScopeExit) ?p2) = None" by simp
  have busy: "prims (p_world ?p2) (m_mutex ?unheld) \<noteq> None" by code_simp
  with acquire_iff [OF b2]
  have blk: "fst (perform Mutex_prim 1 (Use AcquireCall) ?p2) \<noteq> None" by simp
  have "fst (perform Mutex_prim 2 (Construct 6 0 True) ?p2) = Some Blocked" by code_simp
  then have "perform Mutex_prim 2 (Construct 6 0 True) ?p2 =
      (Some Blocked, snd (perform Mutex_prim 2 (Construct 6 0 True) ?p2))"
    by (simp add: prod_eq_iff)
  from failed_keeps [OF this]
  have keep: "p_guards (snd (perform Mutex_prim 2 (Construct 6 0 True) ?p2)) = p_guards ?p2"
    by simp
  show ?thesis
    by (intro conjI) (rule k4 inv4 a4 b4 own4 prim4 inv1 g1 own1 g3 own3 x0 x1 blk keep)+
qed

subsection \<open>Mutual exclusion of threads\<close>

lemma sum_worker_update:
  fixes N :: nat and owed :: "worker \<Rightarrow> nat"
  assumes "t < N"
  shows "(\<Sum>u<N. owed ((ws(t := k)) u)) + owed (ws t) = (\<Sum>u<N. owed (ws u)) + owed k"
proof -
  from assms have t: "t \<in> {..<N}" by simp
  have a: "(\<Sum>u<N. owed ((ws(t := k)) u)) =
      owed ((ws(t := k)) t) + (\<Sum>u\<in>{..<N} - {t}. owed ((ws(t := k)) u))"
    by (rule sum.remove) (simp_all add: assms)
  have b: "(\<Sum>u\<in>{..<N} - {t}. owed ((ws(t := k)) u)) = (\<Sum>u\<in>{..<N} - {t}. owed (ws u))"
    by (rule sum.cong) simp_all
  have c: "(\<Sum>u<N. owed (ws u)) = owed (ws t) + (\<Sum>u\<in>{..<N} - {t}. owed (ws u))"
    by (rule sum.remove) (simp_all add: assms)
  from a b c show ?thesis by simp
qed

lemma step_AtLoop:
  "w_pc (workers s t) = AtLoop \<Longrightarrow>
   thread_step m t s =
     Some (s\<lparr>workers := (workers s)
       (t := (workers s t)\<lparr>w_pc := (if 0 < w_left (workers s t) then AtCtor else Finished)\<rparr>)\<rparr>)"
  by (simp add: thread_step_def Let_def)

lemma step_AtCtor_free:
  assumes "w_pc (workers s t) = AtCtor" and "prims (sys_world s) m = None"
  shows "thread_step m t s =
     Some (s\<lparr>sys_world := (sys_world s)\<lparr>calls := calls (sys_world s) @ [LockCall t m],
                prims := (prims (sys_world s))(m := Some t)\<rparr>,
             workers := (workers s)
               (t := (workers s t)\<lparr>w_pc := AtRead,
                  w_guard := Some \<lparr>m_mutex = m, m_locked = True\<rparr>\<rparr>)\<rparr>)"
proof -
  from assms(2) have "lock Mutex_prim t (prims (sys_world s) m) = Inr (Some t)"
    by (simp add: Mutex_lock_free)
  from Lock_ctor_auto_returns [OF this] assms(1) show ?thesis
    by (simp add: thread_step_def Let_def)
qed

lemma step_AtCtor_held:
  assumes "w_pc (workers s t) = AtCtor" and "prims (sys_world s) m = Some u"
  shows "thread_step m t s = None"
proof -
  from assms(2)
  have "lock Mutex_prim t (prims (sys_world s) m) = Inl (if t = u then Undefined else Blocked)"
    by (simp add: Mutex_lock_held)
  from Lock_ctor_auto_fails [OF this] assms(1) show ?thesis
    by (simp add: thread_step_def Let_def)
qed

lemma step_AtRead:
  "w_pc (workers s t) = AtRead \<Longrightarrow>
   thread_step m t s =
     Some (s\<lparr>workers := (workers s)(t := (workers s t)\<lparr>w_pc := AtWrite, w_tmp := counter s\<rparr>)\<rparr>)"
  by (simp add: thread_step_def Let_def)

lemma step_AtWrite:
  "w_pc (workers s t) = AtWrite \<Longrightarrow>
   thread_step m t s =
     Some (s\<lparr>counter := w_tmp (workers s t) + 1,
             workers := (workers s)(t := (workers s t)\<lparr>w_pc := AtDtor\<rparr>)\<rparr>)"
  by (simp add: thread_step_def Let_def)

lemma step_AtDtor:
  assumes "w_pc (workers s t) = AtDtor"
    and "w_guard (workers s t) = Some \<lparr>m_mutex = m, m_locked = True\<rparr>"
    and "prims (sys_world s) m = Some t"
  shows "thread_step m t s =
     Some (s\<lparr>sys_world := (sys_world s)\<lparr>calls := calls (sys_world s) @ [UnlockCall t m],
                prims := (prims (sys_world s))(m := None)\<rparr>,
             workers := (workers s)
               (t := (workers s t)\<lparr>w_pc := AtLoop, w_left := w_left (workers s t) - 1,
                  w_guard := None\<rparr>)\<rparr>)"
proof -
  from assms(3) have "unlock Mutex_prim t (prims (sys_world s) m) = Inr None"
    by (simp add: Mutex_unlock_returns_iff)
  from call_unlock_returns [OF this] assms(1,2) show ?thesis
    by (simp add: thread_step_def Let_def Lock_dtor_def)
qed

lemma step_Finished: "w_pc (workers s t) = Finished \<Longrightarrow> thread_step m t s = None"
  by (simp add: thread_step_def Let_def)

lemma initial_inv: "sys_inv m N iters (initial N iters)"
  by (simp add: sys_inv_def initial_def in_cs_def owed_def)

lemma sys_invD:
  assumes "sys_inv m N iters s"
  shows "in_cs s u \<longleftrightarrow> prims (sys_world s) m = Some u"
    and "in_cs s u \<Longrightarrow> w_guard (workers s u) = Some \<lparr>m_mutex = m, m_locked = True\<rparr>"
    and "w_pc (workers s u) = AtWrite \<Longrightarrow> w_tmp (workers s u) = counter s"
    and "w_pc (workers s u) \<noteq> AtLoop \<Longrightarrow> w_pc (workers s u) \<noteq> Finished \<Longrightarrow>
         0 < w_left (workers s u)"
    and "w_pc (workers s u) = Finished \<Longrightarrow> w_left (workers s u) = 0"
    and "N \<le> u \<Longrightarrow> w_pc (workers s u) = Finished"
    and "counter s + (\<Sum>t<N. owed (workers s t)) = N * iters"
  using assms by (simp_all add: sys_inv_def)

lemma sys_invI:
  assumes "\<And>u. in_cs s u \<longleftrightarrow> prims (sys_world s) m = Some u"
    and "\<And>u. in_cs s u \<Longrightarrow> w_guard (workers s u) = Some \<lparr>m_mutex = m, m_locked = True\<rparr>"
    and "\<And>u. w_pc (workers s u) = AtWrite \<Longrightarrow> w_tmp (workers s u) = counter s"
    and "\<And>u. w_pc (workers s u) \<noteq> AtLoop \<Longrightarrow> w_pc (workers s u) \<noteq> Finished \<Longrightarrow>
         0 < w_left (workers s u)"
    and "\<And>u. w_pc (workers s u) = Finished \<Longrightarrow> w_left (workers s u) = 0"
    and "\<And>u. N \<le> u \<Longrightarrow> w_pc (workers s u) = Finished"
    and "counter s + (\<Sum>t<N. owed (workers s t)) = N * iters"
  shows "sys_inv m N iters s"
  using assms by (simp add: sys_inv_def)

lemma in_cs_other:
  "u \<noteq> t \<Longrightarrow> in_cs (s\<lparr>workers := (workers s)(t := k)\<rparr>) u = in_cs s u"
  "u \<noteq> t \<Longrightarrow> in_cs (s\<lparr>sys_world := w, workers := (workers s)(t := k)\<rparr>) u = in_cs s u"
  "u \<noteq> t \<Longrightarrow> in_cs (s\<lparr>counter := c, workers := (workers s)(t := k)\<rparr>) u = in_cs s u"
  by (simp_all add: in_cs_def)

lemma step_inv:
  assumes inv: "sys_inv m N iters s" and step: "thread_step m t s = Some s'"
  shows "sys_inv m N iters s'"
proof -
  note I = sys_invD [OF inv]
  let ?k = "workers s t"
  from step have "w_pc ?k \<noteq> Finished" by (auto simp: step_Finished)
  with I(6) [of t] have tN: "t < N" by (cases "t < N") simp_all
  note upd = sum_worker_update [OF tN, of owed "workers s"]
  show ?thesis
  proof (cases "w_pc ?k")
    case AtLoop
    let ?k' = "?k\<lparr>w_pc := (if 0 < w_left ?k then AtCtor else Finished)\<rparr>"
    from step step_AtLoop [OF AtLoop, of m]
    have s': "s' = s\<lparr>workers := (workers s)(t := ?k')\<rparr>" by simp
    from AtLoop have ncs: "\<not> in_cs s t" by (simp add: in_cs_def)
    have ncs': "\<not> in_cs s' t" by (simp add: s' in_cs_def)
    have ow: "owed ?k' = owed ?k" using AtLoop by (simp add: owed_def)
    show ?thesis
    proof (rule sys_invI)
      fix u show "in_cs s' u \<longleftrightarrow> prims (sys_world s') m = Some u"
      proof (cases "u = t")
        case True with ncs ncs' I(1) [of t] show ?thesis by (simp add: s')
      next
        case False with I(1) [of u] show ?thesis by (simp add: s' in_cs_def)
      qed
    next
      fix u assume "in_cs s' u"
      with ncs' have "u \<noteq> t" by auto
      with \<open>in_cs s' u\<close> I(2) [of u]
      show "w_guard (workers s' u) = Some \<lparr>m_mutex = m, m_locked = True\<rparr>"
        by (simp add: s' in_cs_def)
    next
      fix u assume "w_pc (workers s' u) = AtWrite"
      with I(3) [of u] show "w_tmp (workers s' u) = counter s'"
        by (cases "u = t") (simp_all add: s' split: if_splits)
    next
      fix u assume "w_pc (workers s' u) \<noteq> AtLoop" "w_pc (workers s' u) \<noteq> Finished"
      with I(4) [of u] show "0 < w_left (workers s' u)"
        by (cases "u = t") (simp_all add: s' split: if_splits)
    next
      fix u assume "w_pc (workers s' u) = Finished"
      with I(5) [of u] show "w_left (workers s' u) = 0"
        by (cases "u = t") (simp_all add: s' split: if_splits)
    next
      fix u assume "N \<le> u"
      with I(6) [of u] tN show "w_pc (workers s' u) = Finished"
        by (simp add: s')
    next
      from upd [of ?k'] ow I(7) show "counter s' + (\<Sum>t<N. owed (workers s' t)) = N * iters"
        by (simp add: s')
    qed
  next
    case AtCtor
    from AtCtor have ncs: "\<not> in_cs s t" by (simp add: in_cs_def)
    have free: "prims (sys_world s) m = None"
    proof (cases "prims (sys_world s) m")
      case (Some u)
      from step_AtCtor_held [OF AtCtor Some] step show ?thesis by simp
    qed simp
    let ?k' = "?k\<lparr>w_pc := AtRead, w_guard := Some \<lparr>m_mutex = m, m_locked = True\<rparr>\<rparr>"
    let ?w' = "(sys_world s)\<lparr>calls := calls (sys_world s) @ [LockCall t m],
                prims := (prims (sys_world s))(m := Some t)\<rparr>"
    from step step_AtCtor_free [OF AtCtor free]
    have s': "s' = s\<lparr>sys_world := ?w', workers := (workers s)(t := ?k')\<rparr>" by simp
    have ow: "owed ?k' = owed ?k" using AtCtor by (simp add: owed_def)
    show ?thesis
    proof (rule sys_invI)
      fix u show "in_cs s' u \<longleftrightarrow> prims (sys_world s') m = Some u"
      proof (cases "u = t")
        case True then show ?thesis by (simp add: s' in_cs_def)
      next
        case False with I(1) [of u] free show ?thesis by (simp add: s' in_cs_def)
      qed
    next
      fix u assume "in_cs s' u"
      with I(2) [of u]
      show "w_guard (workers s' u) = Some \<lparr>m_mutex = m, m_locked = True\<rparr>"
        by (cases "u = t") (simp_all add: s' in_cs_def)
    next
      fix u assume "w_pc (workers s' u) = AtWrite"
      with I(3) [of u] show "w_tmp (workers s' u) = counter s'"
        by (cases "u = t") (simp_all add: s')
    next
      fix u assume "w_pc (workers s' u) \<noteq> AtLoop" "w_pc (workers s' u) \<noteq> Finished"
      with I(4) [of u] AtCtor show "0 < w_left (workers s' u)"
        by (cases "u = t") (simp_all add: s')
    next
      fix u assume "w_pc (workers s' u) = Finished"
      with I(5) [of u] show "w_left (workers s' u) = 0"
        by (cases "u = t") (simp_all add: s')
    next
      fix u assume "N \<le> u"
      with I(6) [of u] tN show "w_pc (workers s' u) = Finished"
        by (simp add: s')
    next
      from upd [of ?k'] ow I(7) show "counter s' + (\<Sum>t<N. owed (workers s' t)) = N * iters"
        by (simp add: s')
    qed
  next
    case AtRead
    let ?k' = "?k\<lparr>w_pc := AtWrite, w_tmp := counter s\<rparr>"
    from step step_AtRead [OF AtRead, of m]
    have s': "s' = s\<lparr>workers := (workers s)(t := ?k')\<rparr>" by simp
    from AtRead have cs: "in_cs s t" by (simp add: in_cs_def)
    have ow: "owed ?k' = owed ?k" using AtRead by (simp add: owed_def)
    show ?thesis
    proof (rule sys_invI)
      fix u show "in_cs s' u \<longleftrightarrow> prims (sys_world s') m = Some u"
        using I(1) [of u] cs by (cases "u = t") (simp_all add: s' in_cs_def)
    next
      fix u assume "in_cs s' u"
      with I(2) [of u] cs
      show "w_guard (workers s' u) = Some \<lparr>m_mutex = m, m_locked = True\<rparr>"
        by (cases "u = t") (simp_all add: s' in_cs_def)
    next
      fix u assume "w_pc (workers s' u) = AtWrite"
      with I(3) [of u] show "w_tmp (workers s' u) = counter s'"
        by (cases "u = t") (simp_all add: s')
    next
      fix u assume "w_pc (workers s' u) \<noteq> AtLoop" "w_pc (workers s' u) \<noteq> Finished"
      with I(4) [of u] AtRead show "0 < w_left (workers s' u)"
        by (cases "u = t") (simp_all add: s')
    next
      fix u assume "w_pc (workers s' u) = Finished"
      with I(5) [of u] show "w_left (workers s' u) = 0"
        by (cases "u = t") (simp_all add: s')
    next
      fix u assume "N \<le> u"
      with I(6) [of u] tN show "w_pc (workers s' u) = Finished"
        by (simp add: s')
    next
      from upd [of ?k'] ow I(7) show "counter s' + (\<Sum>t<N. owed (workers s' t)) = N * iters"
        by (simp add: s')
    qed
  next
    case AtWrite
    let ?k' = "?k\<lparr>w_pc := AtDtor\<rparr>"
    from step step_AtWrite [OF AtWrite, of m]
    have s': "s' = s\<lparr>counter := w_tmp ?k + 1, workers := (workers s)(t := ?k')\<rparr>" by simp
    from AtWrite have cs: "in_cs s t" by (simp add: in_cs_def)
    from I(3) [OF AtWrite] have tmp: "w_tmp ?k = counter s" .
    from I(4) [of t] AtWrite have pos: "0 < w_left ?k" by simp
    have ow: "owed ?k' + 1 = owed ?k" using AtWrite pos by (simp add: owed_def)
    have excl: "u = t" if "in_cs s u" for u
      using that cs I(1) [of u] I(1) [of t] by simp
    show ?thesis
    proof (rule sys_invI)
      fix u show "in_cs s' u \<longleftrightarrow> prims (sys_world s') m = Some u"
        using I(1) [of u] cs by (cases "u = t") (simp_all add: s' in_cs_def)
    next
      fix u assume "in_cs s' u"
      with I(2) [of u] cs
      show "w_guard (workers s' u) = Some \<lparr>m_mutex = m, m_locked = True\<rparr>"
        by (cases "u = t") (simp_all add: s' in_cs_def)
    next
      fix u assume w: "w_pc (workers s' u) = AtWrite"
      then have "u \<noteq> t" by (auto simp: s')
      with w have "in_cs s u" by (simp add: s' in_cs_def)
      with excl \<open>u \<noteq> t\<close> show "w_tmp (workers s' u) = counter s'" by simp
    next
      fix u assume "w_pc (workers s' u) \<noteq> AtLoop" "w_pc (workers s' u) \<noteq> Finished"
      with I(4) [of u] pos show "0 < w_left (workers s' u)"
        by (cases "u = t") (simp_all add: s')
    next
      fix u assume "w_pc (workers s' u) = Finished"
      with I(5) [of u] show "w_left (workers s' u) = 0"
        by (cases "u = t") (simp_all add: s')
    next
      fix u assume "N \<le> u"
      with I(6) [of u] tN show "w_pc (workers s' u) = Finished"
        by (simp add: s')
    next
      from upd [of ?k'] ow I(7) tmp
      show "counter s' + (\<Sum>t<N. owed (workers s' t)) = N * iters"
        by (simp add: s')
    qed
  next
    case AtDtor
    from AtDtor have cs: "in_cs s t" by (simp add: in_cs_def)
    from I(1) [of t] cs have held: "prims (sys_world s) m = Some t" by simp
    from I(2) [OF cs] have g: "w_guard ?k = Some \<lparr>m_mutex = m, m_locked = True\<rparr>" .
    let ?k' = "?k\<lparr>w_pc := AtLoop, w_left := w_left ?k - 1, w_guard := None\<rparr>"
    let ?w' = "(sys_world s)\<lparr>calls := calls (sys_world s) @ [UnlockCall t m],
                prims := (prims (sys_world s))(m := None)\<rparr>"
    from step step_AtDtor [OF AtDtor g held]
    have s': "s' = s\<lparr>sys_world := ?w', workers := (workers s)(t := ?k')\<rparr>" by simp
    have ow: "owed ?k' = owed ?k" using AtDtor by (simp add: owed_def)
    have excl: "u = t" if "in_cs s u" for u
      using that cs I(1) [of u] I(1) [of t] by simp
    show ?thesis
    proof (rule sys_invI)
      fix u show "in_cs s' u \<longleftrightarrow> prims (sys_world s') m = Some u"
      proof (cases "u = t")
        case True then show ?thesis by (simp add: s' in_cs_def)
      next
        case False
        with excl [of u] have "\<not> in_cs s u" by auto
        with False show ?thesis by (simp add: s' in_cs_def)
      qed
    next
      fix u assume "in_cs s' u"
      with I(2) [of u]
      show "w_guard (workers s' u) = Some \<lparr>m_mutex = m, m_locked = True\<rparr>"
        by (cases "u = t") (simp_all add: s' in_cs_def)
    next
      fix u assume "w_pc (workers s' u) = AtWrite"
      with I(3) [of u] show "w_tmp (workers s' u) = counter s'"
        by (cases "u = t") (simp_all add: s')
    next
      fix u assume "w_pc (workers s' u) \<noteq> AtLoop" "w_pc (workers s' u) \<noteq> Finished"
      with I(4) [of u] show "0 < w_left (workers s' u)"
        by (cases "u = t") (simp_all add: s')
    next
      fix u assume "w_pc (workers s' u) = Finished"
      with I(5) [of u] show "w_left (workers s' u) = 0"
        by (cases "u = t") (simp_all add: s')
    next
      fix u assume "N \<le> u"
      with I(6) [of u] tN show "w_pc (workers s' u) = Finished"
        by (simp add: s')
    next
      from upd [of ?k'] ow I(7) show "counter s' + (\<Sum>t<N. owed (workers s' t)) = N * iters"
        by (simp add: s')
    qed
  next
    case Finished
    with step show ?thesis by (simp add: step_Finished)
  qed
qed

lemma sched_step_inv:
  assumes "sys_inv m N iters s"
  shows "sys_inv m N iters (sched_step m s t)"
proof (cases "thread_step m t s")
  case None
  with assms show ?thesis by (simp add: sched_step_def)
next
  case (Some s')
  from step_inv [OF assms Some] Some show ?thesis by (simp add: sched_step_def)
qed

lemma run_inv: "sys_inv m N iters s \<Longrightarrow> sys_inv m N iters (run m sched s)"
  by (induction sched arbitrary: s) (simp_all add: sched_step_inv)

lemma run_append: "run m (xs @ ys) s = run m ys (run m xs s)"
  by (induction xs arbitrary: s) simp_all

lemma inv_exclusive:
  assumes "sys_inv m N iters s" and "in_cs s t" and "in_cs s u"
  shows "t = u"
  using sys_invD(1) [OF assms(1), of t] sys_invD(1) [OF assms(1), of u] assms(2,3) by simp

lemma inv_finished_counter:
  assumes inv: "sys_inv m N iters s" and fin: "all_finished N s"
  shows "counter s = N * iters"
proof -
  have "owed (workers s t) = 0" if "t < N" for t
  proof -
    from fin that have "w_pc (workers s t) = Finished" by (simp add: all_finished_def)
    with sys_invD(5) [OF inv, of t] show ?thesis by (simp add: owed_def)
  qed
  then have "(\<Sum>t<N. owed (workers s t)) = 0" by simp
  with sys_invD(7) [OF inv] show ?thesis by simp
qed

lemma inv_enabled:
  assumes inv: "sys_inv m N iters s" and nfin: "\<not> all_finished N s"
  shows "\<exists>t<N. thread_step m t s \<noteq> None"
proof -
  note I = sys_invD [OF inv]
  have live: "u < N" if "w_pc (workers s u) \<noteq> Finished" for u
    using that I(6) [of u] by (cases "u < N") simp_all
  show ?thesis
  proof (cases "prims (sys_world s) m")
    case None
    from nfin obtain t where t: "t < N" "w_pc (workers s t) \<noteq> Finished"
      by (auto simp: all_finished_def)
    from None I(1) [of t] have "\<not> in_cs s t" by simp
    with t(2) have "w_pc (workers s t) = AtLoop \<or> w_pc (workers s t) = AtCtor"
      by (cases "w_pc (workers s t)") (simp_all add: in_cs_def)
    then have "thread_step m t s \<noteq> None"
      using step_AtLoop [of s t m] step_AtCtor_free [of s t m] None by auto
    with t(1) show ?thesis by blast
  next
    case (Some u)
    with I(1) [of u] have cs: "in_cs s u" by simp
    then have nf: "w_pc (workers s u) \<noteq> Finished" by (auto simp: in_cs_def)
    from cs have "thread_step m u s \<noteq> None"
      using step_AtRead [of s u m] step_AtWrite [of s u m]
        step_AtDtor [of s u m, OF _ I(2) [OF cs] Some]
      by (auto simp: in_cs_def)
    with live [OF nf] show ?thesis by blast
  qed
qed

lemma step_todo:
  assumes inv: "sys_inv m N iters s" and step: "thread_step m t s = Some s'"
  shows "(\<Sum>u<N. todo (workers s' u)) + 1 = (\<Sum>u<N. todo (workers s u))"
proof -
  note I = sys_invD [OF inv]
  let ?k = "workers s t"
  from step have nf: "w_pc ?k \<noteq> Finished" by (auto simp: step_Finished)
  with I(6) [of t] have tN: "t < N" by (cases "t < N") simp_all
  have "\<exists>k'. workers s' = (workers s)(t := k') \<and> todo k' + 1 = todo ?k"
  proof (cases "w_pc ?k")
    case AtLoop
    from step step_AtLoop [OF AtLoop, of m] I(5) [of t] AtLoop show ?thesis
      by (auto simp: todo_def)
  next
    case AtCtor
    have free: "prims (sys_world s) m = None"
    proof (cases "prims (sys_world s) m")
      case (Some u)
      from step_AtCtor_held [OF AtCtor Some] step show ?thesis by simp
    qed simp
    from step step_AtCtor_free [OF AtCtor free] I(4) [of t] AtCtor show ?thesis
      by (auto simp: todo_def)
  next
    case AtRead
    from step step_AtRead [OF AtRead, of m] I(4) [of t] AtRead show ?thesis
      by (auto simp: todo_def)
  next
    case AtWrite
    from step step_AtWrite [OF AtWrite, of m] I(4) [of t] AtWrite show ?thesis
      by (auto simp: todo_def)
  next
    case AtDtor
    then have cs: "in_cs s t" by (simp add: in_cs_def)
    from I(1) [of t] cs have held: "prims (sys_world s) m = Some t" by simp
    from step step_AtDtor [OF AtDtor I(2) [OF cs] held] I(4) [of t] AtDtor show ?thesis
      by (auto simp: todo_def)
  next
    case Finished
    with nf show ?thesis by simp
  qed
  then obtain k' where k': "workers s' = (workers s)(t := k')" "todo k' + 1 = todo ?k"
    by blast
  from sum_worker_update [OF tN, of todo "workers s" k'] k' show ?thesis by simp
qed

lemma steps_taken_todo:
  "sys_inv m N iters s \<Longrightarrow>
   steps_taken m sched s + (\<Sum>u<N. todo (workers (run m sched s) u)) = (\<Sum>u<N. todo (workers s u))"
proof (induction sched arbitrary: s)
  case Nil
  then show ?case by simp
next
  case (Cons t ts)
  show ?case
  proof (cases "thread_step m t s")
    case None
    with Cons show ?thesis by (simp add: sched_step_def)
  next
    case (Some s')
    from step_inv [OF Cons.prems Some] have "sys_inv m N iters s'" .
    from Cons.IH [OF this] step_todo [OF Cons.prems Some] Some show ?thesis
      by (simp add: sched_step_def)
  qed
qed

lemma initial_todo: "(\<Sum>u<N. todo (workers (initial N iters) u)) = N * (5 * iters + 1)"
  by (simp add: initial_def todo_def)

lemma todo_zero_finished:
  assumes inv: "sys_inv m N iters s" and z: "(\<Sum>u<N. todo (workers s u)) = 0"
  shows "all_finished N s"
proof (rule ccontr)
  assume "\<not> all_finished N s"
  from inv_enabled [OF inv this] obtain t s' where "thread_step m t s = Some s'" by auto
  from step_todo [OF inv this] z show False by simp
qed

lemma finished_todo_zero:
  assumes "all_finished N s"
  shows "(\<Sum>u<N. todo (workers s u)) = 0"
  using assms by (simp add: all_finished_def todo_def)

lemma can_complete:
  "sys_inv m N iters s \<Longrightarrow> (\<Sum>u<N. todo (workers s u)) = n \<Longrightarrow>
   \<exists>sched. all_finished N (run m sched s)"
proof (induction n arbitrary: s)
  case 0
  then have "all_finished N s" by (rule todo_zero_finished)
  then have "all_finished N (run m [] s)" by simp
  then show ?case by blast
next
  case (Suc n)
  show ?case
  proof (cases "all_finished N s")
    case True
    then have "all_finished N (run m [] s)" by simp
    then show ?thesis by blast
  next
    case False
    from inv_enabled [OF Suc.prems(1) False] obtain t s' where st: "thread_step m t s = Some s'"
      by auto
    from step_todo [OF Suc.prems(1) st] Suc.prems(2)
    have "(\<Sum>u<N. todo (workers s' u)) = n" by simp
    from Suc.IH [OF step_inv [OF Suc.prems(1) st] this]
    obtain sched where "all_finished N (run m sched s')" by blast
    with st have "all_finished N (run m (t # sched) s)" by (simp add: sched_step_def)
    then show ?thesis by blast
  qed
qed

text \<open>
  Claim C9.  Take any number \<open>N\<close> of threads and any iteration count, each thread
  running \<open>iters\<close> times the block that constructs a guard on the shared primitive with
  auto-lock, increments the shared counter (a read, then a write) and leaves the block.
  Under every schedule, at every moment, at most one thread is between its constructor
  and its destructor.  Whenever all threads have finished, the counter is exactly
  \<open>N * iters\<close>: no update is lost.  The program cannot get stuck before that: while some
  thread has not finished, some thread can take a step; a run takes at most
  \<open>N * (5 * iters + 1)\<close> steps, has finished exactly when it has taken that many, and
  from every state a schedule can reach the run can be continued to the end.
\<close>

theorem guarded_increments_are_never_lost:
  "(\<forall>t u. in_cs (run m sched (initial N iters)) t \<and> in_cs (run m sched (initial N iters)) u
        \<longrightarrow> t = u)
   \<and> (all_finished N (run m sched (initial N iters)) \<longrightarrow>
        counter (run m sched (initial N iters)) = N * iters)
   \<and> (\<not> all_finished N (run m sched (initial N iters)) \<longrightarrow>
        (\<exists>t<N. thread_step m t (run m sched (initial N iters)) \<noteq> None))
   \<and> steps_taken m sched (initial N iters) \<le> N * (5 * iters + 1)
   \<and> (all_finished N (run m sched (initial N iters)) \<longleftrightarrow>
        steps_taken m sched (initial N iters) = N * (5 * iters + 1))
   \<and> (\<exists>more. all_finished N (run m (sched @ more) (initial N iters)))"
proof -
  let ?s = "run m sched (initial N iters)"
  have inv: "sys_inv m N iters ?s" by (rule run_inv) (rule initial_inv)
  from steps_taken_todo [OF initial_inv, where m = m and N = N and iters = iters and sched = sched]
  have work: "steps_taken m sched (initial N iters) + (\<Sum>u<N. todo (workers ?s u))
      = N * (5 * iters + 1)"
    by (simp add: initial_todo)
  have excl: "\<forall>t u. in_cs ?s t \<and> in_cs ?s u \<longrightarrow> t = u"
    using inv_exclusive [OF inv] by blast
  have part: "all_finished N ?s \<longrightarrow> counter ?s = N * iters"
    using inv_finished_counter [OF inv] by blast
  have live: "\<not> all_finished N ?s \<longrightarrow> (\<exists>t<N. thread_step m t ?s \<noteq> None)"
    using inv_enabled [OF inv] by blast
  from work have bound: "steps_taken m sched (initial N iters) \<le> N * (5 * iters + 1)"
    by linarith
  have iff: "all_finished N ?s \<longleftrightarrow> steps_taken m sched (initial N iters) = N * (5 * iters + 1)"
  proof
    assume "all_finished N ?s"
    from finished_todo_zero [OF this] work
    show "steps_taken m sched (initial N iters) = N * (5 * iters + 1)" by simp
  next
    assume "steps_taken m sched (initial N iters) = N * (5 * iters + 1)"
    with work have "(\<Sum>u<N. todo (workers ?s u)) = 0" by simp
    from todo_zero_finished [OF inv this] show "all_finished N ?s" .
  qed
  from can_complete [OF inv refl] obtain more where "all_finished N (run m more ?s)" by blast
  then have compl: "\<exists>more. all_finished N (run m (sched @ more) (initial N iters))"
    by (auto simp: run_append)
  from excl part live bound iff compl show ?thesis by blast
qed

theorem guarded_increments_are_never_lost_witness:
  "all_finished 2 (run 0 [0, 0, 1, 1, 0, 1, 0, 0, 1, 0, 1, 1, 1, 1] (initial 2 1))
   \<and> counter (run 0 [0, 0, 1, 1, 0, 1, 0, 0, 1, 0, 1, 1, 1, 1] (initial 2 1)) = 2
   \<and> steps_taken 0 [0, 0, 1, 1, 0, 1, 0, 0, 1, 0, 1, 1, 1, 1] (initial 2 1) = 12
   \<and> in_cs (run 0 [0, 0, 1, 1] (initial 2 1)) 0
   \<and> \<not> all_finished 2 (run 0 [0, 0, 1, 1] (initial 2 1))
   \<and> (\<exists>t<2. thread_step 0 t (run 0 [0, 0, 1, 1] (initial 2 1)) \<noteq> None)"
proof -
  let ?sched = "[0, 0, 1, 1, 0, 1, 0, 0, 1, 0, 1, 1, 1, 1] :: thread list"
  let ?s = "run 0 ?sched (initial 2 1)"
  let ?mid = "run 0 [0, 0, 1, 1] (initial 2 1)"
  have f0: "w_pc (workers ?s 0) = Finished" by code_simp
  have f1: "w_pc (workers ?s 1) = Finished" by code_simp
  have fin: "all_finished 2 ?s"
    unfolding all_finished_def
  proof (intro allI impI)
    fix t :: nat assume "t < 2"
    then have "t = 0 \<or> t = 1" by auto
    with f0 f1 show "w_pc (workers ?s t) = Finished" by auto
  qed
  note full = guarded_increments_are_never_lost [where m = 0 and N = 2 and iters = 1 and sched = ?sched]
  note mid = guarded_increments_are_never_lost [where m = 0 and N = 2 and iters = 1 and sched = "[0, 0, 1, 1]"]
  from fin full have "counter ?s = 2 * 1" by blast
  then have cnt: "counter ?s = 2" by simp
  from fin full have "steps_taken 0 ?sched (initial 2 1) = 2 * (5 * 1 + 1)" by blast
  then have taken: "steps_taken 0 ?sched (initial 2 1) = 12" by simp
  have cs: "in_cs ?mid 0" by code_simp
  have busy: "w_pc (workers ?mid 0) \<noteq> Finished" by code_simp
  have nfin: "\<not> all_finished 2 ?mid"
  proof
    assume "all_finished 2 ?mid"
    then have "w_pc (workers ?mid 0) = Finished" unfolding all_finished_def by simp
    with busy show False by simp
  qed
  with mid have en: "\<exists>t<2. thread_step 0 t ?mid \<noteq> None" by blast
  show ?thesis by (intro conjI) (rule fin cnt taken cs nfin en)+
qed

end
